theory Spec2Isabelle
  imports Main "HOL-Library.Word" "HOL-Library.AList" "HOL-Library.Multiset"
begin

section \<open>Data model\<close>

text \<open>
  Amounts are Go \<^verbatim>\<open>uint64\<close> values: 64-bit words whose addition and subtraction wrap
  around. Parties and tokens are Go strings.
\<close>

type_synonym u64 = "64 word"

record Intent =
  Sender :: string
  Receiver :: string
  Token :: string
  Amount :: u64

record Edge =
  To :: string
  Token :: string
  Amount :: u64

definition mk_intent :: "string \<Rightarrow> string \<Rightarrow> string \<Rightarrow> u64 \<Rightarrow> Intent" where
  "mk_intent sender receiver token amount =
     \<lparr>Sender = sender, Receiver = receiver, Token = token, Amount = amount\<rparr>"

definition mk_edge :: "string \<Rightarrow> string \<Rightarrow> u64 \<Rightarrow> Edge" where
  "mk_edge to token amount = \<lparr>To = to, Token = token, Amount = amount\<rparr>"

text \<open>
  \<^verbatim>\<open>Graph.Edges\<close> is a \<^verbatim>\<open>map[string][]Edge\<close>. It is kept as an association list with
  one entry per key, in the order in which the keys were first stored. The order in which Go's
  \<^verbatim>\<open>range\<close> walks a map is not fixed by the language; every \<^verbatim>\<open>range\<close> over a map therefore
  takes its order from a \<open>map_order\<close>, below.
\<close>

type_synonym Graph = "(string \<times> Edge list) list"

definition NewGraph :: Graph where
  "NewGraph = []"

text \<open>\<^verbatim>\<open>g.Edges[from]\<close>: the nil (empty) slice when the key is absent.\<close>

definition edges_at :: "Graph \<Rightarrow> string \<Rightarrow> Edge list" where
  "edges_at g from = (case map_of g from of None \<Rightarrow> [] | Some es \<Rightarrow> es)"

text \<open>
  The program has three \<^verbatim>\<open>range\<close> statements over maps: the roots loop of \<^verbatim>\<open>FindSCCs\<close>, the
  token loop of \<^verbatim>\<open>ProcessNetting\<close> (one order for the \<open>j\<close>-th cycle of the \<open>i\<close>-th component)
  and the loop of \<^verbatim>\<open>ToIntents\<close>. Each field maps the keys of the map to the order in which
  the loop visits them; a valid order is a permutation of the keys.
\<close>

record map_order =
  roots_order :: "string list \<Rightarrow> string list"
  tokens_order :: "nat \<Rightarrow> nat \<Rightarrow> string list \<Rightarrow> string list"
  intents_order :: "string list \<Rightarrow> string list"

definition valid_order :: "map_order \<Rightarrow> bool" where
  "valid_order ord \<longleftrightarrow>
     (\<forall>ks. mset (roots_order ord ks) = mset ks) \<and>
     (\<forall>i j ks. mset (tokens_order ord i j ks) = mset ks) \<and>
     (\<forall>ks. mset (intents_order ord ks) = mset ks)"

text \<open>The order that visits every map in the order its keys were stored.\<close>

definition stored_order :: map_order where
  "stored_order = \<lparr>roots_order = (\<lambda>ks. ks), tokens_order = (\<lambda>i j ks. ks),
                    intents_order = (\<lambda>ks. ks)\<rparr>"

section \<open>Obligation graph\<close>

text \<open>
  The scan of \<^verbatim>\<open>AddEdge\<close>: the first edge to \<open>to\<close> in \<open>token\<close> has \<open>amount\<close> added
  (\<^verbatim>\<open>uint64\<close> addition), and \<open>None\<close> stands for leaving the loop without a match.
\<close>

fun add_to_edge :: "Edge list \<Rightarrow> string \<Rightarrow> string \<Rightarrow> u64 \<Rightarrow> Edge list option" where
  "add_to_edge [] to token amount = None"
| "add_to_edge (edge # es) to token amount =
     (if To edge = to \<and> Token edge = token
      then Some (edge\<lparr>Amount := Amount edge + amount\<rparr> # es)
      else map_option ((#) edge) (add_to_edge es to token amount))"

definition AddEdge :: "Graph \<Rightarrow> string \<Rightarrow> string \<Rightarrow> string \<Rightarrow> u64 \<Rightarrow> Graph" where
  "AddEdge g from to token amount =
     (case add_to_edge (edges_at g from) to token amount of
        Some es \<Rightarrow> AList.update from es g
      | None \<Rightarrow>
          AList.update from (edges_at g from @ [\<lparr>To = to, Token = token, Amount = amount\<rparr>]) g)"

section \<open>Strongly connected components\<close>

text \<open>
  The variables that the closure \<^verbatim>\<open>strongConnect\<close> shares with \<^verbatim>\<open>FindSCCs\<close>. The head of
  \<open>stack\<close> is the top of the Go slice (its last element). \<^verbatim>\<open>lowlink\<close> and \<^verbatim>\<open>onStack\<close>
  are only read through \<^verbatim>\<open>m[k]\<close>, which gives the zero value for an absent key, so they are
  total functions; \<^verbatim>\<open>indices\<close> is also tested for presence.
\<close>

record tarjan_state =
  index :: int
  stack :: "string list"
  onStack :: "string \<Rightarrow> bool"
  indices :: "string \<rightharpoonup> int"
  lowlink :: "string \<Rightarrow> int"
  sccs :: "string list list"

definition index_of :: "tarjan_state \<Rightarrow> string \<Rightarrow> int" where
  "index_of st v = (case indices st v of None \<Rightarrow> 0 | Some i \<Rightarrow> i)"

text \<open>
  The popping loop: \<open>None\<close> is the index-out-of-range panic of \<^verbatim>\<open>stack[len(stack)-1]\<close> on
  an empty stack.
\<close>

fun pop_scc ::
  "string \<Rightarrow> string list \<Rightarrow> (string \<Rightarrow> bool) \<Rightarrow> string list \<Rightarrow>
     (string list \<times> (string \<Rightarrow> bool) \<times> string list) option" where
  "pop_scc v [] onS scc = None"
| "pop_scc v (w # stk) onS scc =
     (if w = v then Some (stk, onS(w := False), scc @ [w])
      else pop_scc v stk (onS(w := False)) (scc @ [w]))"

text \<open>
  One iteration of the successor loop of \<^verbatim>\<open>strongConnect(v)\<close>; \<open>call\<close> is the recursive
  call. \<^verbatim>\<open>math.Min\<close> on the two converted integers is their minimum (the indices are far
  below \<open>2^53\<close>, where the conversion to \<^verbatim>\<open>float64\<close> is exact).
\<close>

definition visit_successor ::
  "(string \<Rightarrow> tarjan_state \<Rightarrow> tarjan_state option) \<Rightarrow> string \<Rightarrow> Edge \<Rightarrow>
     tarjan_state option \<Rightarrow> tarjan_state option" where
  "visit_successor call v edge r =
     (case r of
        None \<Rightarrow> None
      | Some st \<Rightarrow>
          (let w = To edge in
           if indices st w = None then
             (case call w st of
                None \<Rightarrow> None
              | Some st' \<Rightarrow>
                  Some (st'\<lparr>lowlink := (lowlink st')(v := min (lowlink st' v) (lowlink st' w))\<rparr>))
           else if onStack st w then
             Some (st\<lparr>lowlink := (lowlink st)(v := min (lowlink st v) (index_of st w))\<rparr>)
           else Some st))"

definition enter_vertex :: "string \<Rightarrow> tarjan_state \<Rightarrow> tarjan_state" where
  "enter_vertex v st =
     st\<lparr>indices := (indices st)(v \<mapsto> index st),
        lowlink := (lowlink st)(v := index st),
        index := index st + 1,
        stack := v # stack st,
        onStack := (onStack st)(v := True)\<rparr>"

definition leave_vertex :: "string \<Rightarrow> tarjan_state \<Rightarrow> tarjan_state option" where
  "leave_vertex v st =
     (if lowlink st v = index_of st v then
        (case pop_scc v (stack st) (onStack st) [] of
           None \<Rightarrow> None
         | Some (stk, onS, scc) \<Rightarrow>
             Some (st\<lparr>stack := stk, onStack := onS,
                      sccs := (if length scc > 1 then sccs st @ [scc] else sccs st)\<rparr>))
      else Some st)"

text \<open>
  \<^verbatim>\<open>strongConnect\<close> recurses through the state, so its recursion is bounded by a fuel
  argument; \<open>None\<close> is running out of fuel (or the panic above). \<open>FindSCCs\<close> gives it the
  number of vertex occurrences of the graph, and \<open>FindSCCs_total\<close> below shows that this is
  always enough.
\<close>

primrec strongConnect ::
  "Graph \<Rightarrow> nat \<Rightarrow> string \<Rightarrow> tarjan_state \<Rightarrow> tarjan_state option" where
  "strongConnect g 0 v st = None"
| "strongConnect g (Suc n) v st =
     (case fold (visit_successor (strongConnect g n) v) (edges_at g v)
             (Some (enter_vertex v st)) of
        None \<Rightarrow> None
      | Some st' \<Rightarrow> leave_vertex v st')"

definition vertices :: "Graph \<Rightarrow> string list" where
  "vertices g = map fst g @ concat (map (\<lambda>(from, es). map To es) g)"

definition tarjan_init :: tarjan_state where
  "tarjan_init = \<lparr>index = 0, stack = [], onStack = (\<lambda>_. False), indices = Map.empty,
                   lowlink = (\<lambda>_. 0), sccs = []\<rparr>"

definition visit_root :: "Graph \<Rightarrow> string \<Rightarrow> tarjan_state option \<Rightarrow> tarjan_state option" where
  "visit_root g v r =
     (case r of
        None \<Rightarrow> None
      | Some st \<Rightarrow>
          if indices st v = None then strongConnect g (length (vertices g)) v st else Some st)"

definition FindSCCs :: "map_order \<Rightarrow> Graph \<Rightarrow> string list list option" where
  "FindSCCs ord g =
     map_option sccs (fold (visit_root g) (roots_order ord (map fst g)) (Some tarjan_init))"

section \<open>Cycle enumeration\<close>

record cycle_state =
  cycles :: "string list list"
  visited :: "string \<Rightarrow> bool"
  path :: "string list"

text \<open>
  \<^verbatim>\<open>findCyclesRecursive\<close>, with the three variables it shares with \<^verbatim>\<open>FindCycles\<close> passed
  through. \<^verbatim>\<open>path[:len(path)-1]\<close> panics on an empty path; \<open>findCyclesRecursive_inv\<close> below shows
  that the path is never empty there.
\<close>

function findCyclesRecursive ::
  "Graph \<Rightarrow> int \<Rightarrow> string \<Rightarrow> string \<Rightarrow> int \<Rightarrow> cycle_state \<Rightarrow> cycle_state" where
  "findCyclesRecursive g maxLength current start depth st =
     (if depth > maxLength then st
      else if depth > 0 \<and> current = start then st\<lparr>cycles := cycles st @ [path st]\<rparr>
      else
        let st1 = st\<lparr>visited := (visited st)(current := True), path := path st @ [current]\<rparr>;
            st2 = fold (\<lambda>edge s.
                          if \<not> visited s (To edge) \<or> To edge = start
                          then findCyclesRecursive g maxLength (To edge) start (depth + 1) s
                          else s)
                    (edges_at g current) st1
        in st2\<lparr>path := butlast (path st2), visited := (visited st2)(current := False)\<rparr>)"
  by pat_completeness auto
termination
  by (relation "measure (\<lambda>(g, maxLength, current, start, depth, st). nat (maxLength + 1 - depth))")
    auto

definition cycle_init :: cycle_state where
  "cycle_init = \<lparr>cycles = [], visited = (\<lambda>_. False), path = []\<rparr>"

definition FindCycles :: "Graph \<Rightarrow> string list \<Rightarrow> int \<Rightarrow> string list list" where
  "FindCycles g scc maxLength =
     cycles (fold (\<lambda>v st. findCyclesRecursive g maxLength v v 0 st) scc cycle_init)"

section \<open>Netting\<close>

text \<open>\<^verbatim>\<open>cycle[(i+1)%len(cycle)]\<close>, read only for \<open>i < length cycle\<close>.\<close>

definition next_party :: "string list \<Rightarrow> nat \<Rightarrow> string" where
  "next_party cycle i = cycle ! ((i + 1) mod length cycle)"

text \<open>The inner scan of \<^verbatim>\<open>CalculateNetting\<close>: the amount of the first matching edge.\<close>

fun find_edge :: "Edge list \<Rightarrow> string \<Rightarrow> string \<Rightarrow> u64 option" where
  "find_edge [] to token = None"
| "find_edge (edge # es) to token =
     (if To edge = to \<and> Token edge = token then Some (Amount edge) else find_edge es to token)"

definition MaxUint64 :: u64 where
  "MaxUint64 = 18446744073709551615"

text \<open>One iteration of the outer loop of \<^verbatim>\<open>CalculateNetting\<close>.\<close>

definition netting_step :: "Graph \<Rightarrow> string list \<Rightarrow> string \<Rightarrow> nat \<Rightarrow> u64 \<Rightarrow> u64" where
  "netting_step g cycle token i minAmount =
     (case find_edge (edges_at g (cycle ! i)) (next_party cycle i) token of
        None \<Rightarrow> minAmount
      | Some a \<Rightarrow> if a < minAmount then a else minAmount)"

definition CalculateNetting :: "Graph \<Rightarrow> string list \<Rightarrow> string \<Rightarrow> u64" where
  "CalculateNetting g cycle token =
     fold (netting_step g cycle token) [0..<length cycle] MaxUint64"

text \<open>The inner scan of \<^verbatim>\<open>ApplyNetting\<close>: \<^verbatim>\<open>uint64\<close> subtraction on the first matching edge.\<close>

fun sub_from_edge :: "Edge list \<Rightarrow> string \<Rightarrow> string \<Rightarrow> u64 \<Rightarrow> Edge list" where
  "sub_from_edge [] to token amount = []"
| "sub_from_edge (edge # es) to token amount =
     (if To edge = to \<and> Token edge = token
      then edge\<lparr>Amount := Amount edge - amount\<rparr> # es
      else edge # sub_from_edge es to token amount)"

definition apply_at :: "string list \<Rightarrow> string \<Rightarrow> u64 \<Rightarrow> nat \<Rightarrow> Graph \<Rightarrow> Graph" where
  "apply_at cycle token amount i g =
     (case map_of g (cycle ! i) of
        None \<Rightarrow> g
      | Some es \<Rightarrow>
          AList.update (cycle ! i) (sub_from_edge es (next_party cycle i) token amount) g)"

definition ApplyNetting :: "Graph \<Rightarrow> string list \<Rightarrow> string \<Rightarrow> u64 \<Rightarrow> Graph" where
  "ApplyNetting g cycle token amount = fold (apply_at cycle token amount) [0..<length cycle] g"

section \<open>Extraction and the pipeline\<close>

definition edge_intent :: "string \<Rightarrow> Edge \<Rightarrow> Intent" where
  "edge_intent from edge =
     \<lparr>Sender = from, Receiver = To edge, Token = Token edge, Amount = Amount edge\<rparr>"

definition ToIntents :: "map_order \<Rightarrow> Graph \<Rightarrow> Intent list" where
  "ToIntents ord g =
     concat (map (\<lambda>from. map (edge_intent from) (filter (\<lambda>edge. Amount edge > 0) (edges_at g from)))
               (intents_order ord (map fst g)))"

text \<open>The keys of \<^verbatim>\<open>tokenMap\<close>, in the order in which they are first stored.\<close>

definition cycle_tokens :: "Graph \<Rightarrow> string list \<Rightarrow> string list" where
  "cycle_tokens g cycle =
     fold (\<lambda>i tokenMap.
             fold (\<lambda>edge tokenMap.
                     if To edge = next_party cycle i then List.insert (Token edge) tokenMap
                     else tokenMap)
               (edges_at g (cycle ! i)) tokenMap)
       [0..<length cycle] []"

definition net_token :: "string list \<Rightarrow> string \<Rightarrow> Graph \<Rightarrow> Graph" where
  "net_token cycle token g =
     (let amount = CalculateNetting g cycle token
      in if amount > 0 then ApplyNetting g cycle token amount else g)"

definition net_cycle :: "map_order \<Rightarrow> nat \<Rightarrow> nat \<times> string list \<Rightarrow> Graph \<Rightarrow> Graph" where
  "net_cycle ord i jc g =
     fold (net_token (snd jc)) (tokens_order ord i (fst jc) (cycle_tokens g (snd jc))) g"

definition net_scc :: "map_order \<Rightarrow> nat \<times> string list \<Rightarrow> Graph \<Rightarrow> Graph" where
  "net_scc ord isc g = fold (net_cycle ord (fst isc)) (enumerate 0 (FindCycles g (snd isc) 4)) g"

definition build_graph :: "Intent list \<Rightarrow> Graph" where
  "build_graph intents =
     fold (\<lambda>intent g.
             AddEdge g (Sender intent) (Receiver intent) (Intent.Token intent) (Intent.Amount intent))
       intents NewGraph"

definition netted_graph :: "map_order \<Rightarrow> Intent list \<Rightarrow> Graph option" where
  "netted_graph ord intents =
     (let g = build_graph intents
      in map_option (\<lambda>sccs. fold (net_scc ord) (enumerate 0 sccs) g) (FindSCCs ord g))"

definition ProcessNetting :: "map_order \<Rightarrow> Intent list \<Rightarrow> Intent list option" where
  "ProcessNetting ord intents = map_option (ToIntents ord) (netted_graph ord intents)"

section \<open>Notions used in the statements\<close>

text \<open>The \<open>(to, token)\<close> pairs of one party's edge list, in order.\<close>

definition edge_keys :: "Edge list \<Rightarrow> (string \<times> string) list" where
  "edge_keys es = map (\<lambda>edge. (To edge, Token edge)) es"

text \<open>The graph invariant: at most one edge for any \<open>(from, to, token)\<close> triple.\<close>

definition one_edge_per_triple :: "Graph \<Rightarrow> bool" where
  "one_edge_per_triple g \<longleftrightarrow> (\<forall>from. distinct (edge_keys (edges_at g from)))"

text \<open>All the edges of the graph from \<open>from\<close> to \<open>to\<close> in \<open>token\<close>.\<close>

definition edges_between :: "Graph \<Rightarrow> string \<Rightarrow> string \<Rightarrow> string \<Rightarrow> Edge list" where
  "edges_between g from to token =
     filter (\<lambda>edge. To edge = to \<and> Token edge = token) (edges_at g from)"

text \<open>
  \<open>es'\<close> has the edges of \<open>es\<close> at the same positions, and every edge of \<open>es\<close> that is
  not in \<open>token\<close> is the same edge in \<open>es'\<close>.
\<close>

definition same_other_tokens :: "string \<Rightarrow> Edge list \<Rightarrow> Edge list \<Rightarrow> bool" where
  "same_other_tokens token es es' \<longleftrightarrow>
     length es' = length es \<and> (\<forall>i < length es. Token (es ! i) \<noteq> token \<longrightarrow> es' ! i = es ! i)"

text \<open>
  What the enumerator guarantees of a recorded cycle: it is not empty, visits no party
  twice, starts at a member of the component and has at most \<open>k\<close> parties (hence edges).
\<close>

definition good_cycle :: "int \<Rightarrow> string set \<Rightarrow> string list \<Rightarrow> bool" where
  "good_cycle k S c \<longleftrightarrow> c \<noteq> [] \<and> distinct c \<and> hd c \<in> S \<and> int (length c) \<le> k"

text \<open>The invariant of the search: the path is \<open>p\<close> and the visited parties are those on it.\<close>

definition cycle_inv :: "int \<Rightarrow> string set \<Rightarrow> string list \<Rightarrow> cycle_state \<Rightarrow> bool" where
  "cycle_inv k S p st \<longleftrightarrow>
     path st = p \<and> (\<forall>v. visited st v \<longleftrightarrow> v \<in> set p) \<and>
     (\<forall>c \<in> set (cycles st). good_cycle k S c)"

text \<open>A later state of the component search: nothing visited is forgotten, and the stack
  below the entry point is untouched.\<close>

definition extends :: "tarjan_state \<Rightarrow> tarjan_state \<Rightarrow> bool" where
  "extends st st' \<longleftrightarrow>
     dom (indices st) \<subseteq> dom (indices st') \<and> (\<exists>ys. stack st' = ys @ stack st)"

text \<open>
  A party's net position in a token, in the words of the specification: the total amount it
  owes minus the total amount owed to it, over a sequence of intents.
\<close>

definition net_position :: "Intent list \<Rightarrow> string \<Rightarrow> string \<Rightarrow> int" where
  "net_position intents party token =
     (\<Sum>intent \<leftarrow> filter (\<lambda>intent. Sender intent = party \<and> Intent.Token intent = token) intents.
        uint (Intent.Amount intent)) -
     (\<Sum>intent \<leftarrow> filter (\<lambda>intent. Receiver intent = party \<and> Intent.Token intent = token) intents.
        uint (Intent.Amount intent))"

text \<open>The same keys and, for every party, the same \<open>(to, token)\<close> pairs in the same order.\<close>

definition same_shape :: "Graph \<Rightarrow> Graph \<Rightarrow> bool" where
  "same_shape g g' \<longleftrightarrow>
     map fst g' = map fst g \<and> (\<forall>from. edge_keys (edges_at g' from) = edge_keys (edges_at g from))"

text \<open>
  The amount that building the graph stores for a triple: the \<^verbatim>\<open>uint64\<close> sum of the amounts
  of the intents of that triple, if there is one.
\<close>

definition merged_amount :: "Intent list \<Rightarrow> string \<Rightarrow> string \<Rightarrow> string \<Rightarrow> u64 option" where
  "merged_amount intents sender receiver token =
     (let ms = filter (\<lambda>intent. Sender intent = sender \<and> Receiver intent = receiver \<and>
                                 Intent.Token intent = token) intents
      in if ms = [] then None else Some (sum_list (map Intent.Amount ms)))"

definition intent_triple :: "Intent \<Rightarrow> string \<times> string \<times> string" where
  "intent_triple intent = (Sender intent, Receiver intent, Intent.Token intent)"

text \<open>Every edge of the graph as an intent, zero amounts included, in stored order.\<close>

definition graph_intents :: "Graph \<Rightarrow> Intent list" where
  "graph_intents g = concat (map (\<lambda>(from, es). map (edge_intent from) es) g)"

text \<open>Every edge of the graph is in the token \<open>t\<close>.\<close>

definition single_token :: "string \<Rightarrow> Graph \<Rightarrow> bool" where
  "single_token t g \<longleftrightarrow> (\<forall>from. \<forall>edge \<in> set (edges_at g from). Token edge = t)"

text \<open>The parties \<open>u\<close> and \<open>w\<close> with an edge from \<open>u\<close> to \<open>w\<close>, in any token and of any amount.\<close>

definition edge_rel :: "Graph \<Rightarrow> (string \<times> string) set" where
  "edge_rel g = {(u, w). \<exists>edge \<in> set (edges_at g u). To edge = w}"

text \<open>There is a directed path, possibly empty, from \<open>u\<close> to \<open>w\<close>.\<close>

definition reaches :: "Graph \<Rightarrow> string \<Rightarrow> string \<Rightarrow> bool" where
  "reaches g u w \<longleftrightarrow> (u, w) \<in> (edge_rel g)\<^sup>*"

text \<open>What is shown of a returned component: at least two parties, all different, each
  reaching each other.\<close>

definition good_scc :: "Graph \<Rightarrow> string list \<Rightarrow> bool" where
  "good_scc g scc \<longleftrightarrow>
     distinct scc \<and> 2 \<le> length scc \<and> (\<forall>u \<in> set scc. \<forall>w \<in> set scc. reaches g u w)"

text \<open>
  The invariant of the component search. The stack has no party twice and is what
  \<^verbatim>\<open>onStack\<close> says; every index is below the counter; going up the stack the indices grow
  and each party reaches the ones above it; the lowlink of a party on the stack is the index
  of a party on the stack that it reaches; and every recorded component is a good one.
\<close>

definition tarjan_inv :: "Graph \<Rightarrow> tarjan_state \<Rightarrow> bool" where
  "tarjan_inv g st \<longleftrightarrow>
     distinct (stack st) \<and>
     (\<forall>u. onStack st u \<longleftrightarrow> u \<in> set (stack st)) \<and>
     set (stack st) \<subseteq> dom (indices st) \<and>
     (\<forall>u i. indices st u = Some i \<longrightarrow> i < index st) \<and>
     sorted_wrt (\<lambda>a b. index_of st b < index_of st a \<and> reaches g b a) (stack st) \<and>
     (\<forall>w \<in> set (stack st).
        lowlink st w \<le> index_of st w \<and>
        (\<exists>x \<in> set (stack st). indices st x = Some (lowlink st w) \<and> reaches g w x)) \<and>
     (\<forall>scc \<in> set (sccs st). good_scc g scc)"

text \<open>A call leaves the index and the lowlink of the parties visited before it alone.\<close>

definition frame :: "tarjan_state \<Rightarrow> tarjan_state \<Rightarrow> bool" where
  "frame st st' \<longleftrightarrow>
     (\<forall>u \<in> dom (indices st). indices st' u = indices st u \<and> lowlink st' u = lowlink st u)"

text \<open>
  The contract of \<^verbatim>\<open>strongConnect(v)\<close>: called on an unvisited party that every party on
  the stack reaches, it leaves the stack as it was, or with parties on top that all reach a
  party of the stack of the call; and if \<open>v\<close> is popped its lowlink is its index.
\<close>

definition call_pre :: "Graph \<Rightarrow> string \<Rightarrow> tarjan_state \<Rightarrow> bool" where
  "call_pre g v st \<longleftrightarrow>
     tarjan_inv g st \<and> indices st v = None \<and> (\<forall>u \<in> set (stack st). reaches g u v)"

definition call_post :: "Graph \<Rightarrow> string \<Rightarrow> tarjan_state \<Rightarrow> tarjan_state \<Rightarrow> bool" where
  "call_post g v st st' \<longleftrightarrow>
     tarjan_inv g st' \<and> frame st st' \<and>
     (\<exists>ys. stack st' = ys @ stack st \<and> (\<forall>u \<in> set ys. \<exists>x \<in> set (stack st). reaches g u x)) \<and>
     indices st' v \<noteq> None \<and> (v \<in> set (stack st') \<or> index st \<le> lowlink st' v)"

text \<open>The invariant of the successor loop of \<^verbatim>\<open>strongConnect(v)\<close>, called in state \<open>st\<close>.\<close>

definition loop_inv :: "Graph \<Rightarrow> string \<Rightarrow> tarjan_state \<Rightarrow> tarjan_state \<Rightarrow> bool" where
  "loop_inv g v st s \<longleftrightarrow>
     tarjan_inv g s \<and> frame st s \<and>
     (\<exists>ys. stack s = ys @ v # stack st \<and> (\<forall>u \<in> set ys. reaches g u v)) \<and>
     indices s v = Some (index st)"

text \<open>The component of \<open>v\<close> is \<open>v\<close> alone: no other party is on a cycle with it.\<close>

definition alone :: "Graph \<Rightarrow> string \<Rightarrow> bool" where
  "alone g v \<longleftrightarrow> (\<forall>w. reaches g v w \<longrightarrow> reaches g w v \<longrightarrow> w = v)"

section \<open>General lemmas\<close>

lemma fold_invariant:
  "I s \<Longrightarrow> (\<And>x s. x \<in> set xs \<Longrightarrow> I s \<Longrightarrow> I (f x s)) \<Longrightarrow> I (fold f xs s)"
  by (induction xs arbitrary: s) auto

lemma edges_at_update:
  "edges_at (AList.update k es g) k' = (if k' = k then es else edges_at g k')"
  by (simp add: edges_at_def update_conv')

lemma edges_at_NewGraph: "edges_at NewGraph from = []"
  by (simp add: edges_at_def NewGraph_def)

lemma valid_stored_order: "valid_order stored_order"
  by (simp add: valid_order_def stored_order_def)

section \<open>Edge insertion\<close>

lemma find_edge_None: "find_edge es to token = None \<longleftrightarrow> (to, token) \<notin> set (edge_keys es)"
  by (induction es) (auto simp: edge_keys_def)

lemma add_to_edge_None:
  "add_to_edge es to token amount = None \<longleftrightarrow> find_edge es to token = None"
  by (induction es) auto

lemma add_to_edge_keys:
  "add_to_edge es to token amount = Some es' \<Longrightarrow> edge_keys es' = edge_keys es"
  by (induction es arbitrary: es') (auto simp: edge_keys_def split: if_splits)

lemma find_edge_add_to_edge:
  "add_to_edge es to token amount = Some es' \<Longrightarrow>
   find_edge es' to' token' =
     (if to' = to \<and> token' = token then map_option (\<lambda>b. b + amount) (find_edge es to token)
      else find_edge es to' token')"
  by (induction es arbitrary: es') (auto split: if_splits)

lemma find_edge_append:
  "find_edge (es @ [edge]) to token =
     (case find_edge es to token of
        Some b \<Rightarrow> Some b
      | None \<Rightarrow> if To edge = to \<and> Token edge = token then Some (Amount edge) else None)"
  by (induction es) auto

text \<open>The amount stored for a triple after \<open>AddEdge\<close>: the amount is added to the edge of
  the same triple, and no other triple changes.\<close>

lemma find_edge_AddEdge:
  "find_edge (edges_at (AddEdge g from to token amount) from') to' token' =
     (if from' = from \<and> to' = to \<and> token' = token
      then Some (case find_edge (edges_at g from) to token of None \<Rightarrow> amount | Some b \<Rightarrow> b + amount)
      else find_edge (edges_at g from') to' token')"
proof (cases "add_to_edge (edges_at g from) to token amount")
  case None
  then have "find_edge (edges_at g from) to token = None"
    by (simp add: add_to_edge_None)
  with None show ?thesis
    by (auto simp: AddEdge_def edges_at_update find_edge_append split: option.splits)
next
  case (Some es)
  then obtain b where "find_edge (edges_at g from) to token = Some b"
    using add_to_edge_None [of "edges_at g from" to token amount] by auto
  with Some show ?thesis
    by (auto simp: AddEdge_def edges_at_update find_edge_add_to_edge)
qed

lemma AddEdge_inv:
  assumes "one_edge_per_triple g"
  shows "one_edge_per_triple (AddEdge g from to token amount)"
proof (cases "add_to_edge (edges_at g from) to token amount")
  case None
  then have "(to, token) \<notin> set (edge_keys (edges_at g from))"
    by (simp add: add_to_edge_None find_edge_None)
  with assms None show ?thesis
    by (auto simp: one_edge_per_triple_def AddEdge_def edges_at_update edge_keys_def)
next
  case (Some es)
  with assms show ?thesis
    by (auto simp: one_edge_per_triple_def AddEdge_def edges_at_update dest: add_to_edge_keys)
qed

lemma filter_no_match:
  "find_edge es to token = None \<Longrightarrow> filter (\<lambda>edge. To edge = to \<and> Token edge = token) es = []"
  by (induction es) (auto split: if_splits)

text \<open>Under the invariant, the edges of a triple are the one edge that the scans find.\<close>

lemma filter_find_edge:
  "distinct (edge_keys es) \<Longrightarrow>
   filter (\<lambda>edge. To edge = to \<and> Token edge = token) es =
     (case find_edge es to token of
        None \<Rightarrow> []
      | Some a \<Rightarrow> [\<lparr>To = to, Token = token, Amount = a\<rparr>])"
proof (induction es)
  case Nil
  then show ?case by simp
next
  case (Cons edge es)
  show ?case
  proof (cases "To edge = to \<and> Token edge = token")
    case True
    with Cons.prems have "find_edge es to token = None"
      by (simp add: find_edge_None edge_keys_def)
    with True show ?thesis
      by (simp add: filter_no_match)
  next
    case False
    with Cons show ?thesis
      by (auto simp: edge_keys_def)
  qed
qed

lemma edges_between_find_edge:
  "one_edge_per_triple g \<Longrightarrow>
   edges_between g from to token =
     (case find_edge (edges_at g from) to token of
        None \<Rightarrow> []
      | Some a \<Rightarrow> [\<lparr>To = to, Token = token, Amount = a\<rparr>])"
  by (simp add: edges_between_def one_edge_per_triple_def filter_find_edge)

lemma one_edge_per_triple_NewGraph: "one_edge_per_triple NewGraph"
  by (simp add: one_edge_per_triple_def edges_at_NewGraph edge_keys_def)

text \<open>
  Claim C4. \<open>AddEdge\<close> keeps the invariant that there is at most one edge for any
  \<open>(from, to, token)\<close> triple, and after inserting \<open>(from, to, token, x)\<close> and then
  \<open>(from, to, token, y)\<close> the graph has exactly one edge for the triple; its amount is
  \<open>x + y\<close> when the graph had no edge for the triple before, and the earlier amount plus
  \<open>x + y\<close> otherwise. Sums are \<^verbatim>\<open>uint64\<close> sums.
\<close>

theorem AddEdge_merge_invariant:
  assumes "one_edge_per_triple g"
  shows "one_edge_per_triple (AddEdge g from to token amount) \<and>
         edges_between (AddEdge (AddEdge g from to token x) from to token y) from to token =
           [\<lparr>To = to, Token = token,
             Amount = (case find_edge (edges_at g from) to token of
                         None \<Rightarrow> x + y
                       | Some a \<Rightarrow> a + x + y)\<rparr>]"
proof -
  have "one_edge_per_triple (AddEdge (AddEdge g from to token x) from to token y)"
    using assms by (intro AddEdge_inv)
  then show ?thesis
    using assms
    by (simp add: AddEdge_inv edges_between_find_edge find_edge_AddEdge split: option.splits)
qed

theorem AddEdge_merge_invariant_witness:
  "one_edge_per_triple NewGraph \<and>
   one_edge_per_triple (AddEdge NewGraph ''A'' ''B'' ''T'' 5) \<and>
   edges_between (AddEdge (AddEdge NewGraph ''A'' ''B'' ''T'' 5) ''A'' ''B'' ''T'' 7)
       ''A'' ''B'' ''T'' =
     [\<lparr>To = ''B'', Token = ''T'', Amount = 12\<rparr>]"
  using AddEdge_merge_invariant [OF one_edge_per_triple_NewGraph, of "''A''" "''B''" "''T''" 5 5 7]
  by (simp add: one_edge_per_triple_NewGraph edges_at_NewGraph)

section \<open>Cycle enumeration: recorded cycles\<close>

declare findCyclesRecursive.simps [simp del]

text \<open>
  The search keeps its invariant: on return the path and the visited set are what they were
  at the call, and every recorded cycle is a good one. In particular the path is never empty
  where \<^verbatim>\<open>path[:len(path)-1]\<close> is taken, since it then ends with \<open>current\<close>.
\<close>

lemma findCyclesRecursive_inv:
  "cycle_inv k S p st \<Longrightarrow> int (length p) = depth \<Longrightarrow> distinct p \<Longrightarrow> start \<in> S \<Longrightarrow>
   (p \<noteq> [] \<longrightarrow> hd p = start) \<Longrightarrow> (p = [] \<longrightarrow> current = start) \<Longrightarrow>
   (current \<notin> set p \<or> current = start) \<Longrightarrow>
   cycle_inv k S p (findCyclesRecursive g k current start depth st)"
proof (induction g k current start depth st arbitrary: p rule: findCyclesRecursive.induct)
  case (1 g maxLength current start depth st)
  note prems = "1.prems"
  show ?case
  proof (cases "depth > maxLength")
    case True
    with prems(1) show ?thesis
      by (simp add: findCyclesRecursive.simps [of g maxLength current start depth st])
  next
    case small: False
    show ?thesis
    proof (cases "depth > 0 \<and> current = start")
      case True
      with prems small have "good_cycle maxLength S p"
        by (auto simp: good_cycle_def)
      moreover have "findCyclesRecursive g maxLength current start depth st =
          st\<lparr>cycles := cycles st @ [path st]\<rparr>"
        using True small by (subst findCyclesRecursive.simps) simp
      ultimately show ?thesis
        using prems(1) by (simp add: cycle_inv_def)
    next
      case False
      with prems have fresh: "current \<notin> set p"
        by auto
      let ?p = "p @ [current]"
      define st1 where
        "st1 = st\<lparr>visited := (visited st)(current := True), path := path st @ [current]\<rparr>"
      define step where "step = (\<lambda>(edge::Edge) s.
          if \<not> visited s (To edge) \<or> To edge = start
          then findCyclesRecursive g maxLength (To edge) start (depth + 1) s else s)"
      have st1: "cycle_inv maxLength S ?p st1"
        using prems(1) by (auto simp: st1_def cycle_inv_def)
      have hd: "hd ?p = start"
        using prems(5,6) by (cases p) auto
      have "cycle_inv maxLength S ?p (fold step (edges_at g current) st1)"
      proof (rule fold_invariant [where I = "cycle_inv maxLength S ?p"])
        show "cycle_inv maxLength S ?p st1" by (rule st1)
      next
        fix edge s
        assume e: "edge \<in> set (edges_at g current)" and s: "cycle_inv maxLength S ?p s"
        show "cycle_inv maxLength S ?p (step edge s)"
        proof (cases "\<not> visited s (To edge) \<or> To edge = start")
          case True
          then have "To edge \<notin> set ?p \<or> To edge = start"
            using s by (auto simp: cycle_inv_def)
          then have "cycle_inv maxLength S ?p
                  (findCyclesRecursive g maxLength (To edge) start (depth + 1) s)"
            using small False e True s prems(2,3,4) fresh hd
            by (intro "1.IH" [OF _ _ st1_def]) auto
          with True show ?thesis by (simp add: step_def)
        next
          case False
          with s show ?thesis by (simp add: step_def)
        qed
      qed
      moreover have "findCyclesRecursive g maxLength current start depth st =
          (let st2 = fold step (edges_at g current) st1
           in st2\<lparr>path := butlast (path st2), visited := (visited st2)(current := False)\<rparr>)"
        using small False
        by (subst findCyclesRecursive.simps) (auto simp: st1_def step_def Let_def)
      ultimately show ?thesis
        using fresh by (auto simp: cycle_inv_def Let_def)
    qed
  qed
qed

lemma FindCycles_good:
  assumes "c \<in> set (FindCycles g scc k)"
  shows "good_cycle k (set scc) c"
proof -
  have "cycle_inv k (set scc) [] (fold (\<lambda>v st. findCyclesRecursive g k v v 0 st) scc cycle_init)"
  proof (rule fold_invariant [where I = "cycle_inv k (set scc) []"])
    show "cycle_inv k (set scc) [] cycle_init"
      by (simp add: cycle_inv_def cycle_init_def)
  next
    fix v st
    assume "v \<in> set scc" "cycle_inv k (set scc) [] st"
    then show "cycle_inv k (set scc) [] (findCyclesRecursive g k v v 0 st)"
      by (intro findCyclesRecursive_inv) auto
  qed
  with assms show ?thesis
    by (simp add: FindCycles_def cycle_inv_def)
qed

lemma FindCycles_example:
  "FindCycles
     [(''A'', [mk_edge ''B'' ''T'' 1]), (''B'', [mk_edge ''C'' ''T'' 1]),
      (''C'', [mk_edge ''D'' ''T'' 1]), (''D'', [mk_edge ''E'' ''T'' 1, mk_edge ''A'' ''T'' 1]),
      (''E'', [mk_edge ''A'' ''T'' 1])] [''A''] 4 = [[''A'', ''B'', ''C'', ''D'']]"
  by code_simp

text \<open>
  Claim C5. Every cycle that \<open>FindCycles\<close> returns for the bound \<open>k\<close> has at most \<open>k\<close>
  parties, hence at most \<open>k\<close> edges, whatever longer cycles the graph has; the pipeline
  enumerates the cycles of a component with the bound 4.
\<close>

theorem FindCycles_bound:
  "(\<forall>c \<in> set (FindCycles g scc k). int (length c) \<le> k) \<and>
   net_scc ord (i, scc) g = fold (net_cycle ord i) (enumerate 0 (FindCycles g scc 4)) g \<and>
   (\<forall>c \<in> set (FindCycles g scc 4). length c \<le> 4)"
proof -
  have "int (length c) \<le> k" if "c \<in> set (FindCycles g scc k)" for c k
    using FindCycles_good [OF that] by (simp add: good_cycle_def)
  then show ?thesis
    by (fastforce simp: net_scc_def)
qed

text \<open>The graph of the witness has the cycle \<open>A B C D E\<close> of five edges and, through the
  edge from \<open>D\<close> to \<open>A\<close>, the cycle \<open>A B C D\<close> of four.\<close>

theorem FindCycles_bound_witness:
  "[''A'', ''B'', ''C'', ''D''] \<in> set (FindCycles
     [(''A'', [mk_edge ''B'' ''T'' 1]), (''B'', [mk_edge ''C'' ''T'' 1]),
      (''C'', [mk_edge ''D'' ''T'' 1]), (''D'', [mk_edge ''E'' ''T'' 1, mk_edge ''A'' ''T'' 1]),
      (''E'', [mk_edge ''A'' ''T'' 1])] [''A''] 4) \<and>
   length [''A'', ''B'', ''C'', ''D''] \<le> (4::nat) \<and>
   [''A'', ''B'', ''C'', ''D'', ''E''] \<notin> set (FindCycles
     [(''A'', [mk_edge ''B'' ''T'' 1]), (''B'', [mk_edge ''C'' ''T'' 1]),
      (''C'', [mk_edge ''D'' ''T'' 1]), (''D'', [mk_edge ''E'' ''T'' 1, mk_edge ''A'' ''T'' 1]),
      (''E'', [mk_edge ''A'' ''T'' 1])] [''A''] 4)"
  using FindCycles_bound [of
     "[(''A'', [mk_edge ''B'' ''T'' 1]), (''B'', [mk_edge ''C'' ''T'' 1]),
      (''C'', [mk_edge ''D'' ''T'' 1]), (''D'', [mk_edge ''E'' ''T'' 1, mk_edge ''A'' ''T'' 1]),
      (''E'', [mk_edge ''A'' ''T'' 1])]" "[''A'']" 4]
  by (simp add: FindCycles_example)

section \<open>Netting: what \<open>ApplyNetting\<close> changes\<close>

lemma sub_from_edge_keys: "edge_keys (sub_from_edge es to token amount) = edge_keys es"
  by (induction es) (auto simp: edge_keys_def)

lemma sub_from_edge_length: "length (sub_from_edge es to token amount) = length es"
  by (induction es) auto

lemma sub_from_edge_nth:
  "i < length es \<Longrightarrow>
   sub_from_edge es to token amount ! i = es ! i \<or>
   (To (es ! i) = to \<and> Token (es ! i) = token \<and> find_edge es to token = Some (Amount (es ! i)) \<and>
    sub_from_edge es to token amount ! i = (es ! i)\<lparr>Amount := Amount (es ! i) - amount\<rparr>)"
proof (induction es arbitrary: i)
  case Nil
  then show ?case by simp
next
  case (Cons edge es)
  then show ?case by (cases i) auto
qed

lemma find_edge_sub_other:
  "(to', token') \<noteq> (to, token) \<Longrightarrow>
   find_edge (sub_from_edge es to token amount) to' token' = find_edge es to' token'"
  by (induction es) auto

lemma find_edge_sub_same:
  "find_edge (sub_from_edge es to token amount) to token =
     map_option (\<lambda>a. a - amount) (find_edge es to token)"
  by (induction es) auto

lemma edges_at_apply_at:
  "edges_at (apply_at cycle token amount i g) from =
     (if from = cycle ! i
      then sub_from_edge (edges_at g from) (next_party cycle i) token amount
      else edges_at g from)"
  by (cases "map_of g (cycle ! i)") (auto simp: apply_at_def edges_at_update, simp_all add: edges_at_def)

lemma keys_apply_at: "map fst (apply_at cycle token amount i g) = map fst g"
proof (cases "map_of g (cycle ! i)")
  case None
  then show ?thesis by (simp add: apply_at_def)
next
  case (Some es)
  then have "cycle ! i \<in> fst ` set g"
    by (metis domI dom_map_of_conv_image_fst)
  with Some show ?thesis by (simp add: apply_at_def update_keys)
qed

lemma keys_ApplyNetting: "map fst (ApplyNetting g cycle token amount) = map fst g"
  unfolding ApplyNetting_def
  by (rule fold_invariant [where I = "\<lambda>g'. map fst g' = map fst g"]) (simp_all add: keys_apply_at)

lemma edge_keys_ApplyNetting:
  "edge_keys (edges_at (ApplyNetting g cycle token amount) from) = edge_keys (edges_at g from)"
  unfolding ApplyNetting_def
  by (rule fold_invariant
        [where I = "\<lambda>g'. edge_keys (edges_at g' from) = edge_keys (edges_at g from)"])
    (auto simp: edges_at_apply_at sub_from_edge_keys)

lemma edge_keys_nth:
  assumes "edge_keys es = edge_keys es'" and "i < length es"
  shows "Token (es' ! i) = Token (es ! i) \<and> To (es' ! i) = To (es ! i)"
proof -
  have len: "length es' = length es"
    using assms(1) by (metis edge_keys_def length_map)
  have "edge_keys es' ! i = edge_keys es ! i"
    using assms(1) by simp
  moreover have "edge_keys es ! i = (To (es ! i), Token (es ! i))"
    using assms(2) by (simp add: edge_keys_def)
  moreover have "edge_keys es' ! i = (To (es' ! i), Token (es' ! i))"
    using assms(2) len by (simp add: edge_keys_def)
  ultimately show ?thesis by simp
qed

lemma other_tokens_step:
  assumes "edge_keys es' = edge_keys es" "same_other_tokens token es es'"
  shows "same_other_tokens token es (sub_from_edge es' to token amount)"
proof -
  have len: "length es' = length es"
    using assms(2) by (simp add: same_other_tokens_def)
  have "sub_from_edge es' to token amount ! i = es ! i"
    if "i < length es" "Token (es ! i) \<noteq> token" for i
  proof -
    have "Token (es' ! i) \<noteq> token"
      using edge_keys_nth [OF assms(1) [symmetric], of i] that by simp
    then have "sub_from_edge es' to token amount ! i = es' ! i"
      using sub_from_edge_nth [of i es' to token amount] that len by auto
    with assms(2) that show ?thesis by (simp add: same_other_tokens_def)
  qed
  with len show ?thesis
    by (simp add: same_other_tokens_def sub_from_edge_length)
qed

lemma ApplyNetting_other_tokens:
  "same_other_tokens token (edges_at g from) (edges_at (ApplyNetting g cycle token amount) from)"
proof -
  let ?I = "\<lambda>g'. edge_keys (edges_at g' from) = edge_keys (edges_at g from) \<and>
                  same_other_tokens token (edges_at g from) (edges_at g' from)"
  have "?I (fold (apply_at cycle token amount) [0..<length cycle] g)"
  proof (rule fold_invariant [where I = ?I])
    show "?I g" by (simp add: same_other_tokens_def)
  next
    fix i g'
    assume "?I g'"
    then show "?I (apply_at cycle token amount i g')"
      by (auto simp: edges_at_apply_at sub_from_edge_keys other_tokens_step)
  qed
  then show ?thesis by (simp add: ApplyNetting_def)
qed

text \<open>
  Claim C8. \<open>ApplyNetting\<close> for the token \<open>token\<close> keeps the keys of the graph and the
  length of every edge list, and every edge whose token is not \<open>token\<close> is unchanged, at its
  position, whatever parties it joins.
\<close>

theorem ApplyNetting_token_isolation:
  "map fst (ApplyNetting g cycle token amount) = map fst g \<and>
   length (edges_at (ApplyNetting g cycle token amount) from) = length (edges_at g from) \<and>
   (i < length (edges_at g from) \<and> Token (edges_at g from ! i) \<noteq> token \<longrightarrow>
      edges_at (ApplyNetting g cycle token amount) from ! i = edges_at g from ! i)"
  using ApplyNetting_other_tokens [of token g "from" cycle amount]
  by (simp add: keys_ApplyNetting same_other_tokens_def)

theorem ApplyNetting_token_isolation_witness:
  "1 < length (edges_at [(''A'', [mk_edge ''B'' ''ETH'' 100, mk_edge ''B'' ''USDC'' 7]),
                         (''B'', [mk_edge ''A'' ''ETH'' 50])] ''A'') \<and>
   Token (edges_at [(''A'', [mk_edge ''B'' ''ETH'' 100, mk_edge ''B'' ''USDC'' 7]),
                    (''B'', [mk_edge ''A'' ''ETH'' 50])] ''A'' ! 1) \<noteq> ''ETH'' \<and>
   edges_at (ApplyNetting [(''A'', [mk_edge ''B'' ''ETH'' 100, mk_edge ''B'' ''USDC'' 7]),
                           (''B'', [mk_edge ''A'' ''ETH'' 50])] [''A'', ''B''] ''ETH'' 50) ''A'' ! 1 =
     mk_edge ''B'' ''USDC'' 7"
  using ApplyNetting_token_isolation [of
      "[(''A'', [mk_edge ''B'' ''ETH'' 100, mk_edge ''B'' ''USDC'' 7]),
        (''B'', [mk_edge ''A'' ''ETH'' 50])]" "[''A'', ''B'']" "''ETH''" 50 "''A''" 1]
  by (simp add: edges_at_def mk_edge_def)

section \<open>Netting: the amount and the subtraction\<close>

lemma apply_untouched:
  "\<forall>i \<in> set is. cycle ! i \<noteq> from \<Longrightarrow>
   edges_at (fold (apply_at cycle token amount) is g) from = edges_at g from"
  by (induction "is" arbitrary: g) (auto simp: edges_at_apply_at)

lemma apply_touched:
  "distinct cycle \<Longrightarrow> distinct is \<Longrightarrow> \<forall>j \<in> set is. j < length cycle \<Longrightarrow> i \<in> set is \<Longrightarrow>
   edges_at (fold (apply_at cycle token amount) is g) (cycle ! i) =
     sub_from_edge (edges_at g (cycle ! i)) (next_party cycle i) token amount"
proof (induction "is" arbitrary: g)
  case Nil
  then show ?case by simp
next
  case (Cons j js)
  show ?case
  proof (cases "i = j")
    case True
    have "\<forall>k \<in> set js. cycle ! k \<noteq> cycle ! i"
      using Cons.prems True by (auto simp: nth_eq_iff_index_eq)
    then show ?thesis
      using True by (simp add: apply_untouched edges_at_apply_at)
  next
    case False
    then have "cycle ! j \<noteq> cycle ! i"
      using Cons.prems by (auto simp: nth_eq_iff_index_eq)
    with False Cons show ?thesis
      by (simp add: edges_at_apply_at)
  qed
qed

lemma ApplyNetting_on_cycle:
  "distinct cycle \<Longrightarrow> i < length cycle \<Longrightarrow>
   edges_at (ApplyNetting g cycle token amount) (cycle ! i) =
     sub_from_edge (edges_at g (cycle ! i)) (next_party cycle i) token amount"
  by (simp add: ApplyNetting_def apply_touched)

lemma ApplyNetting_off_cycle:
  "from \<notin> set cycle \<Longrightarrow> edges_at (ApplyNetting g cycle token amount) from = edges_at g from"
  by (auto simp: ApplyNetting_def intro!: apply_untouched)

lemma netting_fold_le: "fold (netting_step g cycle token) is m \<le> m"
proof (induction "is" arbitrary: m)
  case Nil
  then show ?case by simp
next
  case (Cons i "is")
  have "netting_step g cycle token i m \<le> m"
    by (auto simp: netting_step_def not_less split: option.splits intro: less_imp_le)
  with Cons [of "netting_step g cycle token i m"] show ?case
    by simp
qed

lemma netting_fold_min:
  "i \<in> set is \<Longrightarrow> find_edge (edges_at g (cycle ! i)) (next_party cycle i) token = Some a \<Longrightarrow>
   fold (netting_step g cycle token) is m \<le> a"
proof (induction "is" arbitrary: m)
  case Nil
  then show ?case by simp
next
  case (Cons j js)
  show ?case
  proof (cases "i = j")
    case True
    with Cons.prems have "netting_step g cycle token j m \<le> a"
      by (auto simp: netting_step_def not_less)
    with netting_fold_le [of g cycle token js "netting_step g cycle token j m"]
    show ?thesis by simp
  next
    case False
    with Cons show ?thesis by simp
  qed
qed

lemma CalculateNetting_le:
  "i < length cycle \<Longrightarrow>
   find_edge (edges_at g (cycle ! i)) (next_party cycle i) token = Some a \<Longrightarrow>
   CalculateNetting g cycle token \<le> a"
  by (simp add: CalculateNetting_def netting_fold_min)

text \<open>
  Claim C3, as the code has it. \<open>ApplyNetting\<close> makes no check and subtracts modulo
  \<open>2^64\<close>. Called as the pipeline calls it, on a cycle of distinct parties and with the
  amount that \<open>CalculateNetting\<close> gives for the same graph, cycle and token, no subtraction
  wraps: every edge is either unchanged, or its amount was at least the netting amount
  and is reduced by exactly that amount.
\<close>

theorem ApplyNetting_no_wrap:
  assumes "distinct cycle" and "k < length (edges_at g from)"
  shows "edges_at (ApplyNetting g cycle token (CalculateNetting g cycle token)) from ! k =
           edges_at g from ! k \<or>
         (CalculateNetting g cycle token \<le> Amount (edges_at g from ! k) \<and>
          edges_at (ApplyNetting g cycle token (CalculateNetting g cycle token)) from ! k =
            (edges_at g from ! k)
              \<lparr>Amount := Amount (edges_at g from ! k) - CalculateNetting g cycle token\<rparr> \<and>
          unat (Amount (edges_at g from ! k) - CalculateNetting g cycle token) =
            unat (Amount (edges_at g from ! k)) - unat (CalculateNetting g cycle token))"
proof (cases "from \<in> set cycle")
  case False
  then show ?thesis by (simp add: ApplyNetting_off_cycle)
next
  case True
  then obtain i where i: "i < length cycle" "cycle ! i = from"
    by (auto simp: in_set_conv_nth)
  let ?amount = "CalculateNetting g cycle token"
  have eq: "edges_at (ApplyNetting g cycle token ?amount) from =
          sub_from_edge (edges_at g from) (next_party cycle i) token ?amount"
    using ApplyNetting_on_cycle [OF assms(1) i(1)] i(2) by simp
  from sub_from_edge_nth [OF assms(2), of "next_party cycle i" token ?amount]
  show ?thesis
  proof
    assume "sub_from_edge (edges_at g from) (next_party cycle i) token ?amount ! k =
            edges_at g from ! k"
    with eq show ?thesis by simp
  next
    assume a: "To (edges_at g from ! k) = next_party cycle i \<and>
      Token (edges_at g from ! k) = token \<and>
      find_edge (edges_at g from) (next_party cycle i) token = Some (Amount (edges_at g from ! k)) \<and>
      sub_from_edge (edges_at g from) (next_party cycle i) token ?amount ! k =
        (edges_at g from ! k)\<lparr>Amount := Amount (edges_at g from ! k) - ?amount\<rparr>"
    then have le: "?amount \<le> Amount (edges_at g from ! k)"
      using CalculateNetting_le [of i cycle g token] i by simp
    then have "unat (Amount (edges_at g from ! k) - ?amount) =
               unat (Amount (edges_at g from ! k)) - unat ?amount"
      by (simp add: unat_sub)
    with a le eq show ?thesis by simp
  qed
qed

theorem ApplyNetting_no_wrap_witness:
  "distinct [''A'', ''B''] \<and>
   0 < length (edges_at [(''A'', [mk_edge ''B'' ''T'' 5]), (''B'', [mk_edge ''A'' ''T'' 3])] ''A'') \<and>
   CalculateNetting [(''A'', [mk_edge ''B'' ''T'' 5]), (''B'', [mk_edge ''A'' ''T'' 3])]
     [''A'', ''B''] ''T'' = 3 \<and>
   edges_at (ApplyNetting [(''A'', [mk_edge ''B'' ''T'' 5]), (''B'', [mk_edge ''A'' ''T'' 3])]
               [''A'', ''B''] ''T'' 3) ''A'' ! 0 = mk_edge ''B'' ''T'' 2"
proof -
  let ?g = "[(''A'', [mk_edge ''B'' ''T'' 5]), (''B'', [mk_edge ''A'' ''T'' 3])]"
  have d: "distinct [''A'', ''B'']" by simp
  have l: "0 < length (edges_at ?g ''A'')" by (simp add: edges_at_def)
  have c: "CalculateNetting ?g [''A'', ''B''] ''T'' = 3" by code_simp
  have r: "edges_at (ApplyNetting ?g [''A'', ''B''] ''T'' 3) ''A'' ! 0 = mk_edge ''B'' ''T'' 2"
    by code_simp
  from ApplyNetting_no_wrap [OF d l, of "''T''"] d l c r show ?thesis by simp
qed

text \<open>
  The subtraction itself wraps, without any error, when the amount is larger than an edge:
  \<open>5 - 7\<close> is stored as \<open>2^64 - 2\<close>.
\<close>

theorem ApplyNetting_wraps:
  "ApplyNetting [(''A'', [mk_edge ''B'' ''T'' 5]), (''B'', [mk_edge ''A'' ''T'' 5])]
     [''A'', ''B''] ''T'' 7 =
   [(''A'', [mk_edge ''B'' ''T'' 18446744073709551614]),
    (''B'', [mk_edge ''A'' ''T'' 18446744073709551614])]"
  by code_simp

text \<open>
  Claim C2, on the code. \<open>CalculateNetting\<close> has no result for "not applicable". For the
  cycle \<open>A B\<close> of a graph whose only edges are \<open>A\<close> to \<open>B\<close> in ETH and \<open>B\<close> to \<open>A\<close> in USDC,
  the pair \<open>(B, A)\<close> has no edge in ETH and the result is the amount 100 of the other pair;
  for a token that no pair carries the result is the sentinel \<open>2^64 - 1\<close>.
\<close>

theorem CalculateNetting_missing_edge:
  "find_edge (edges_at [(''A'', [mk_edge ''B'' ''ETH'' 100]), (''B'', [mk_edge ''A'' ''USDC'' 50])]
              ''B'') ''A'' ''ETH'' = None \<and>
   CalculateNetting [(''A'', [mk_edge ''B'' ''ETH'' 100]), (''B'', [mk_edge ''A'' ''USDC'' 50])]
     [''A'', ''B''] ''ETH'' = 100 \<and>
   CalculateNetting [(''A'', [mk_edge ''B'' ''ETH'' 100]), (''B'', [mk_edge ''A'' ''USDC'' 50])]
     [''A'', ''B''] ''DAI'' = 18446744073709551615"
  by code_simp

section \<open>Component search: it always returns\<close>

text \<open>
  \<open>strongConnect\<close> is only called on a party without an index, and gives it one before it
  recurses; so with as much fuel as there are such parties among the vertices it returns,
  and the stack it pops still holds the party it looks for.
\<close>

lemma extends_refl: "extends st st"
  by (simp add: extends_def)

lemma extends_trans: "extends a b \<Longrightarrow> extends b c \<Longrightarrow> extends a c"
  by (auto simp: extends_def)

lemma extends_lowlink: "extends a b \<Longrightarrow> extends a (b\<lparr>lowlink := l\<rparr>)"
  by (simp add: extends_def)

lemma pop_scc_succeeds:
  "\<exists>stk' onS' scc'. pop_scc v (ys @ v # rest) onS scc = Some (stk', onS', scc') \<and>
     (\<exists>zs. stk' = zs @ rest)"
  by (induction ys arbitrary: onS scc) auto

lemma leave_vertex_succeeds:
  assumes "stack st = ys @ v # rest"
  shows "\<exists>st'. leave_vertex v st = Some st' \<and> indices st' = indices st \<and>
           (\<exists>zs. stack st' = zs @ rest)"
proof (cases "lowlink st v = index_of st v")
  case True
  obtain stk' onS' scc' zs where
    "pop_scc v (ys @ v # rest) (onStack st) [] = Some (stk', onS', scc')" "stk' = zs @ rest"
    using pop_scc_succeeds [of v ys rest "onStack st" "[]"] by blast
  with True assms show ?thesis by (simp add: leave_vertex_def)
next
  case False
  with assms show ?thesis by (simp add: leave_vertex_def)
qed

lemma unvisited_mono:
  "finite V \<Longrightarrow> extends s s' \<Longrightarrow> card (V - dom (indices s')) \<le> card (V - dom (indices s))"
  by (rule card_mono) (auto simp: extends_def)

lemma successors_succeed:
  assumes call: "\<And>w s. w \<in> V \<Longrightarrow> indices s w = None \<Longrightarrow> card (V - dom (indices s)) \<le> n \<Longrightarrow>
                   \<exists>s'. call w s = Some s' \<and> extends s s'"
    and fin: "finite V"
  shows "To ` set es \<subseteq> V \<Longrightarrow> card (V - dom (indices s0)) \<le> n \<Longrightarrow>
         \<exists>s'. fold (visit_successor call v) es (Some s0) = Some s' \<and> extends s0 s'"
proof (induction es arbitrary: s0)
  case Nil
  then show ?case by (simp add: extends_refl)
next
  case (Cons edge es)
  have "\<exists>s1. visit_successor call v edge (Some s0) = Some s1 \<and> extends s0 s1"
  proof (cases "indices s0 (To edge) = None")
    case True
    with Cons.prems obtain s' where "call (To edge) s0 = Some s'" "extends s0 s'"
      using call [of "To edge" s0] by auto
    with True show ?thesis
      by (auto simp: visit_successor_def intro: extends_lowlink)
  next
    case False
    then show ?thesis
      by (auto simp: visit_successor_def Let_def intro: extends_lowlink extends_refl)
  qed
  then obtain s1 where s1: "visit_successor call v edge (Some s0) = Some s1" "extends s0 s1"
    by blast
  have "card (V - dom (indices s1)) \<le> n"
    using unvisited_mono [OF fin s1(2)] Cons.prems(2) by simp
  with Cons.IH [of s1] Cons.prems(1) obtain s' where
    "fold (visit_successor call v) es (Some s1) = Some s'" "extends s1 s'"
    by auto
  with s1 show ?case
    by (auto intro: extends_trans)
qed

lemma edges_at_vertices:
  assumes "edge \<in> set (edges_at g v)"
  shows "To edge \<in> set (vertices g)"
proof -
  from assms obtain es where "map_of g v = Some es" "edge \<in> set es"
    by (cases "map_of g v") (auto simp: edges_at_def)
  then have "(v, es) \<in> set g" "edge \<in> set es"
    by (auto dest: map_of_SomeD)
  then show ?thesis
    by (force simp: vertices_def)
qed

lemma strongConnect_succeeds:
  "v \<in> set (vertices g) \<Longrightarrow> indices st v = None \<Longrightarrow>
   card (set (vertices g) - dom (indices st)) \<le> n \<Longrightarrow>
   \<exists>st'. strongConnect g n v st = Some st' \<and> extends st st'"
proof (induction n arbitrary: v st)
  case 0
  then have "v \<in> set (vertices g) - dom (indices st)" by auto
  then have "card (set (vertices g) - dom (indices st)) \<noteq> 0"
    by (metis List.finite_set card_0_eq empty_iff finite_Diff)
  with 0 show ?case by simp
next
  case (Suc n)
  let ?V = "set (vertices g)"
  let ?st1 = "enter_vertex v st"
  have dom1: "dom (indices ?st1) = insert v (dom (indices st))"
    and stk1: "stack ?st1 = v # stack st"
    by (auto simp: enter_vertex_def)
  have "?V - dom (indices ?st1) = (?V - dom (indices st)) - {v}"
    by (auto simp: dom1)
  moreover have "v \<in> ?V - dom (indices st)"
    using Suc.prems by auto
  ultimately have "card (?V - dom (indices ?st1)) = card (?V - dom (indices st)) - 1"
    by (simp add: card_Diff_singleton)
  with Suc.prems have c1: "card (?V - dom (indices ?st1)) \<le> n" by simp
  have "To ` set (edges_at g v) \<subseteq> ?V"
    by (auto dest: edges_at_vertices)
  with c1 obtain st2 where st2:
    "fold (visit_successor (strongConnect g n) v) (edges_at g v) (Some ?st1) = Some st2"
    "extends ?st1 st2"
    using successors_succeed [of ?V n "strongConnect g n" "edges_at g v" ?st1 v] Suc.IH
    by auto
  from st2(2) obtain ys where ys: "stack st2 = ys @ v # stack st"
    by (auto simp: extends_def stk1)
  from leave_vertex_succeeds [OF ys] obtain st' zs where
    st': "leave_vertex v st2 = Some st'" "indices st' = indices st2" "stack st' = zs @ stack st"
    by blast
  have "extends st st'"
    using st2(2) st' by (auto simp: extends_def dom1)
  with st2(1) st'(1) show ?case by simp
qed

lemma roots_succeed:
  "set roots \<subseteq> set (vertices g) \<Longrightarrow>
   \<exists>st'. fold (visit_root g) roots (Some st) = Some st'"
proof (induction roots arbitrary: st)
  case Nil
  then show ?case by simp
next
  case (Cons v roots)
  have "\<exists>st1. visit_root g v (Some st) = Some st1"
  proof (cases "indices st v = None")
    case True
    have "card (set (vertices g) - dom (indices st)) \<le> length (vertices g)"
      by (meson List.finite_set card_length card_mono Diff_subset le_trans)
    with True Cons.prems show ?thesis
      using strongConnect_succeeds [of v g st "length (vertices g)"]
      by (auto simp: visit_root_def)
  next
    case False
    then show ?thesis by (auto simp: visit_root_def)
  qed
  with Cons show ?case by auto
qed

lemma FindSCCs_total:
  assumes "valid_order ord"
  shows "\<exists>sccs. FindSCCs ord g = Some sccs"
proof -
  have "set (roots_order ord (map fst g)) = set (map fst g)"
    using assms by (metis valid_order_def mset_eq_setD)
  then have "set (roots_order ord (map fst g)) \<subseteq> set (vertices g)"
    by (auto simp: vertices_def)
  from roots_succeed [OF this] show ?thesis
    by (auto simp: FindSCCs_def)
qed

section \<open>Component search: what it returns\<close>

text \<open>
  Every component that \<open>FindSCCs\<close> returns consists of at least two different parties that
  all reach each other.
\<close>

lemma reaches_refl: "reaches g u u"
  by (simp add: reaches_def)

lemma reaches_trans: "reaches g u v \<Longrightarrow> reaches g v w \<Longrightarrow> reaches g u w"
  by (simp add: reaches_def)

lemma reaches_edge: "edge \<in> set (edges_at g u) \<Longrightarrow> reaches g u (To edge)"
  by (auto simp: reaches_def edge_rel_def)

lemma frame_refl: "frame st st"
  by (simp add: frame_def)

lemma frame_trans: "frame a b \<Longrightarrow> frame b c \<Longrightarrow> frame a c"
  by (auto simp: frame_def dom_def)

lemma frame_index_of: "frame st st' \<Longrightarrow> u \<in> dom (indices st) \<Longrightarrow> index_of st' u = index_of st u"
  by (simp add: frame_def index_of_def)

lemma frame_indices: "frame st st' \<Longrightarrow> indices st u = Some i \<Longrightarrow> indices st' u = Some i"
  unfolding frame_def by (metis domI)

lemma frame_lowlink_eq: "frame st st' \<Longrightarrow> indices st u = Some i \<Longrightarrow> lowlink st' u = lowlink st u"
  unfolding frame_def by (metis domI)

lemma pop_scc_exact:
  "v \<notin> set ys \<Longrightarrow>
   pop_scc v (ys @ v # rest) onS acc =
     Some (rest, (\<lambda>u. if u \<in> set ys \<or> u = v then False else onS u), acc @ ys @ [v])"
proof (induction ys arbitrary: onS acc)
  case Nil
  then show ?case by (simp add: fun_eq_iff)
next
  case (Cons y ys)
  then show ?case by (auto simp: fun_eq_iff)
qed

lemma enter_vertex_loop_inv:
  assumes "call_pre g v st"
  shows "loop_inv g v st (enter_vertex v st)"
proof -
  let ?s = "enter_vertex v st"
  from assms have inv: "tarjan_inv g st" and new: "indices st v = None"
    and up: "\<forall>u \<in> set (stack st). reaches g u v"
    by (simp_all add: call_pre_def)
  have notin: "v \<notin> set (stack st)"
    using inv new by (auto simp: tarjan_inv_def)
  have idx: "index_of ?s u = index_of st u" if "u \<noteq> v" for u
    using that by (simp add: index_of_def enter_vertex_def)
  have idxv: "index_of ?s v = index st"
    by (simp add: index_of_def enter_vertex_def)
  have old: "u \<noteq> v" if "u \<in> set (stack st)" for u
    using that notin by auto
  have lt: "index_of st u < index st" if "u \<in> set (stack st)" for u
  proof -
    from that inv obtain i where "indices st u = Some i" by (auto simp: tarjan_inv_def)
    with inv show ?thesis by (auto simp: tarjan_inv_def index_of_def)
  qed
  have sorted: "sorted_wrt (\<lambda>a b. index_of ?s b < index_of ?s a \<and> reaches g b a) (stack st)"
  proof -
    have "sorted_wrt (\<lambda>a b. index_of st b < index_of st a \<and> reaches g b a) (stack st)"
      using inv by (simp add: tarjan_inv_def)
    then show ?thesis
      by (rule sorted_wrt_mono_rel [rotated]) (simp add: idx old)
  qed
  have low: "lowlink ?s w \<le> index_of ?s w \<and>
        (\<exists>x \<in> set (stack ?s). indices ?s x = Some (lowlink ?s w) \<and> reaches g w x)"
    if "w \<in> set (stack ?s)" for w
  proof (cases "w = v")
    case True
    then show ?thesis
      by (auto simp: enter_vertex_def index_of_def reaches_refl)
  next
    case False
    with that have w: "w \<in> set (stack st)" by (simp add: enter_vertex_def)
    with inv obtain x where x: "x \<in> set (stack st)" "indices st x = Some (lowlink st w)"
      "reaches g w x" and le: "lowlink st w \<le> index_of st w"
      by (auto simp: tarjan_inv_def)
    from x(1) have "x \<noteq> v" by (rule old)
    with x False le show ?thesis
      by (auto simp: enter_vertex_def index_of_def)
  qed
  have stk: "stack ?s = v # stack st"
    by (simp add: enter_vertex_def)
  have lt': "index_of ?s u < index_of ?s v" if "u \<in> set (stack st)" for u
    using that lt [OF that] old [OF that] by (simp add: idx idxv)
  have "tarjan_inv g ?s"
    unfolding tarjan_inv_def
  proof (intro conjI)
    show "distinct (stack ?s)"
      using inv notin by (simp add: enter_vertex_def tarjan_inv_def)
    show "\<forall>u. onStack ?s u \<longleftrightarrow> u \<in> set (stack ?s)"
      using inv by (simp add: enter_vertex_def tarjan_inv_def)
    show "set (stack ?s) \<subseteq> dom (indices ?s)"
      using inv by (auto simp: enter_vertex_def tarjan_inv_def)
    show "\<forall>u i. indices ?s u = Some i \<longrightarrow> i < index ?s"
      using inv by (auto simp: enter_vertex_def tarjan_inv_def) force
    show "sorted_wrt (\<lambda>a b. index_of ?s b < index_of ?s a \<and> reaches g b a) (stack ?s)"
      unfolding stk using sorted up lt' by simp
    show "\<forall>w \<in> set (stack ?s). lowlink ?s w \<le> index_of ?s w \<and>
        (\<exists>x \<in> set (stack ?s). indices ?s x = Some (lowlink ?s w) \<and> reaches g w x)"
      using low by blast
    show "\<forall>scc \<in> set (sccs ?s). good_scc g scc"
      using inv by (simp add: enter_vertex_def tarjan_inv_def)
  qed
  moreover have "frame st ?s"
    using new by (auto simp: frame_def enter_vertex_def)
  moreover have "indices ?s v = Some (index st)"
    by (simp add: enter_vertex_def)
  ultimately show ?thesis
    unfolding loop_inv_def by (intro conjI exI [of _ "[]"]) (simp_all add: stk)
qed

lemma index_of_lowlink [simp]: "index_of (s\<lparr>lowlink := l\<rparr>) = index_of s"
  by (simp add: index_of_def fun_eq_iff)

lemma lowlink_update_inv:
  assumes inv: "tarjan_inv g s" and v: "v \<in> set (stack s)" and le: "l \<le> lowlink s v"
    and wit: "l = lowlink s v \<or> (\<exists>x \<in> set (stack s). indices s x = Some l \<and> reaches g v x)"
  shows "tarjan_inv g (s\<lparr>lowlink := (lowlink s)(v := l)\<rparr>)"
proof -
  let ?s = "s\<lparr>lowlink := (lowlink s)(v := l)\<rparr>"
  have old: "lowlink s w \<le> index_of s w \<and>
      (\<exists>x \<in> set (stack s). indices s x = Some (lowlink s w) \<and> reaches g w x)"
    if "w \<in> set (stack s)" for w
    using inv that by (simp add: tarjan_inv_def)
  have "lowlink ?s w \<le> index_of ?s w \<and>
      (\<exists>x \<in> set (stack ?s). indices ?s x = Some (lowlink ?s w) \<and> reaches g w x)"
    if w: "w \<in> set (stack ?s)" for w
  proof (cases "w = v")
    case True
    have "l \<le> index_of s v"
      using old [OF v] le by simp
    moreover have "\<exists>x \<in> set (stack s). indices s x = Some l \<and> reaches g v x"
      using wit old [OF v] by auto
    ultimately show ?thesis
      using True by simp
  next
    case False
    with w old [of w] show ?thesis by simp
  qed
  then show ?thesis
    using inv by (simp add: tarjan_inv_def)
qed

lemma frame_lowlink:
  "frame st s \<Longrightarrow> indices st v = None \<Longrightarrow> frame st (s\<lparr>lowlink := (lowlink s)(v := l)\<rparr>)"
  by (auto simp: frame_def)

lemma successor_step:
  assumes call: "\<And>w s s'. call_pre g w s \<Longrightarrow> call w s = Some s' \<Longrightarrow> call_post g w s s'"
    and pre: "call_pre g v st"
    and edge: "edge \<in> set (edges_at g v)"
    and inv: "loop_inv g v st s"
    and step: "visit_successor call v edge (Some s) = Some s'"
  shows "loop_inv g v st s'"
proof -
  let ?w = "To edge"
  have vw: "reaches g v ?w"
    using edge by (rule reaches_edge)
  from inv obtain ys where tinv: "tarjan_inv g s" and fr: "frame st s"
    and stk: "stack s = ys @ v # stack st" and ys: "\<forall>u \<in> set ys. reaches g u v"
    and idxv: "indices s v = Some (index st)"
    by (auto simp: loop_inv_def)
  from pre have new: "indices st v = None" and below: "\<forall>u \<in> set (stack st). reaches g u v"
    by (simp_all add: call_pre_def)
  have all_v: "reaches g u v" if "u \<in> set (stack s)" for u
    using that ys below by (auto simp: stk reaches_refl)
  have von: "v \<in> set (stack s)"
    by (simp add: stk)
  show ?thesis
  proof (cases "indices s ?w = None")
    case True
    with step obtain s2 where c: "call ?w s = Some s2"
      and s': "s' = s2\<lparr>lowlink := (lowlink s2)(v := min (lowlink s2 v) (lowlink s2 ?w))\<rparr>"
      by (auto simp: visit_successor_def Let_def split: option.splits)
    have "call_pre g ?w s"
      using tinv True all_v vw by (auto simp: call_pre_def intro: reaches_trans)
    from call [OF this c] obtain ys2 where tinv2: "tarjan_inv g s2" and fr2: "frame s s2"
      and stk2: "stack s2 = ys2 @ stack s"
      and ys2: "\<forall>u \<in> set ys2. \<exists>x \<in> set (stack s). reaches g u x"
      and last: "?w \<in> set (stack s2) \<or> index s \<le> lowlink s2 ?w"
      by (auto simp: call_post_def)
    have idxv2: "indices s2 v = Some (index st)"
      using fr2 idxv by (rule frame_indices)
    have von2: "v \<in> set (stack s2)"
      by (simp add: stk2 stk)
    have lowv: "lowlink s2 v \<le> index st"
      using tinv2 von2 idxv2 by (auto simp: tarjan_inv_def index_of_def)
    have bound: "index st < index s"
      using tinv idxv by (auto simp: tarjan_inv_def)
    have wit: "min (lowlink s2 v) (lowlink s2 ?w) = lowlink s2 v \<or>
        (\<exists>x \<in> set (stack s2). indices s2 x = Some (min (lowlink s2 v) (lowlink s2 ?w)) \<and>
           reaches g v x)"
    proof (cases "lowlink s2 v \<le> lowlink s2 ?w")
      case True
      then show ?thesis by simp
    next
      case False
      with lowv bound last have "?w \<in> set (stack s2)" by auto
      with tinv2 obtain x where "x \<in> set (stack s2)" "indices s2 x = Some (lowlink s2 ?w)"
        "reaches g ?w x"
        by (auto simp: tarjan_inv_def)
      with False vw show ?thesis
        by (auto simp: min_def intro: reaches_trans)
    qed
    have "tarjan_inv g s'"
      unfolding s' using tinv2 von2 _ wit by (rule lowlink_update_inv) simp
    moreover have "frame st s'"
      unfolding s' using frame_trans [OF fr fr2] new by (rule frame_lowlink)
    moreover have "stack s' = (ys2 @ ys) @ v # stack st"
      by (simp add: s' stk2 stk)
    moreover have "\<forall>u \<in> set (ys2 @ ys). reaches g u v"
      using ys ys2 all_v by (auto simp: Ball_def) (meson reaches_trans)
    moreover have "indices s' v = Some (index st)"
      by (simp add: s' idxv2)
    ultimately show ?thesis
      unfolding loop_inv_def by blast
  next
    case False
    show ?thesis
    proof (cases "onStack s ?w")
      case True
      with False step
      have s': "s' = s\<lparr>lowlink := (lowlink s)(v := min (lowlink s v) (index_of s ?w))\<rparr>"
        by (auto simp: visit_successor_def Let_def)
      have won: "?w \<in> set (stack s)"
        using tinv True by (simp add: tarjan_inv_def)
      have "indices s ?w = Some (index_of s ?w)"
        using False by (auto simp: index_of_def)
      with won vw
      have wit: "min (lowlink s v) (index_of s ?w) = lowlink s v \<or>
          (\<exists>x \<in> set (stack s). indices s x = Some (min (lowlink s v) (index_of s ?w)) \<and>
             reaches g v x)"
        by (auto simp: min_def)
      have "tarjan_inv g s'"
        unfolding s' using tinv von _ wit by (rule lowlink_update_inv) simp
      moreover have "frame st s'"
        unfolding s' using fr new by (rule frame_lowlink)
      ultimately show ?thesis
        using stk ys idxv unfolding loop_inv_def by (auto simp: s')
    next
      case off: False
      with False step have "s' = s"
        by (auto simp: visit_successor_def Let_def)
      with inv show ?thesis by simp
    qed
  qed
qed

lemma fold_visit_successor_None: "fold (visit_successor call v) es None = None"
  by (induction es) (simp_all add: visit_successor_def)

lemma successors_loop:
  assumes call: "\<And>w s s'. call_pre g w s \<Longrightarrow> call w s = Some s' \<Longrightarrow> call_post g w s s'"
    and pre: "call_pre g v st"
  shows "set es \<subseteq> set (edges_at g v) \<Longrightarrow> loop_inv g v st s \<Longrightarrow>
         fold (visit_successor call v) es (Some s) = Some s' \<Longrightarrow> loop_inv g v st s'"
proof (induction es arbitrary: s)
  case Nil
  then show ?case by simp
next
  case (Cons edge es)
  show ?case
  proof (cases "visit_successor call v edge (Some s)")
    case None
    with Cons.prems(3) show ?thesis
      by (simp add: fold_visit_successor_None)
  next
    case (Some s1)
    have "edge \<in> set (edges_at g v)"
      using Cons.prems(1) by simp
    with call pre have "loop_inv g v st s1"
      using Cons.prems(2) Some by (rule successor_step)
    with Cons.IH [of s1] Cons.prems(1,3) Some show ?thesis
      by simp
  qed
qed

lemma leave_vertex_post:
  assumes pre: "call_pre g v st" and inv: "loop_inv g v st s"
    and leave: "leave_vertex v s = Some st'"
  shows "call_post g v st st'"
proof -
  let ?P = "\<lambda>a b. index_of s b < index_of s a \<and> reaches g b a"
  from inv obtain ys where tinv: "tarjan_inv g s" and fr: "frame st s"
    and stk: "stack s = ys @ v # stack st" and ys: "\<forall>u \<in> set ys. reaches g u v"
    and idxv: "indices s v = Some (index st)"
    by (auto simp: loop_inv_def)
  from pre have tinv0: "tarjan_inv g st"
    by (simp add: call_pre_def)
  have dist: "distinct (ys @ v # stack st)"
    using tinv by (simp add: tarjan_inv_def stk)
  have sorted: "sorted_wrt ?P (ys @ v # stack st)"
    using tinv by (simp add: tarjan_inv_def stk)
  have above: "index_of s v < index_of s u \<and> reaches g v u" if "u \<in> set ys" for u
    using sorted that by (auto simp: sorted_wrt_append)
  have iv: "index_of s v = index st"
    using idxv by (simp add: index_of_def)
  show ?thesis
  proof (cases "lowlink s v = index_of s v")
    case False
    with leave have st': "st' = s"
      by (simp add: leave_vertex_def)
    from tinv obtain x where x: "x \<in> set (stack s)" "indices s x = Some (lowlink s v)"
      "reaches g v x" and le: "lowlink s v \<le> index_of s v"
      by (auto simp: tarjan_inv_def stk)
    have ix: "index_of s x < index_of s v"
      using x(2) le False by (simp add: index_of_def)
    then have "x \<noteq> v" by auto
    moreover have "x \<notin> set ys"
      using above [of x] ix by auto
    ultimately have xs: "x \<in> set (stack st)"
      using x(1) by (simp add: stk)
    have "\<forall>u \<in> set (ys @ [v]). \<exists>x \<in> set (stack st). reaches g u x"
      using xs x(3) ys by (auto intro: reaches_trans)
    moreover have "stack st' = (ys @ [v]) @ stack st"
      by (simp add: st' stk)
    ultimately show ?thesis
      unfolding call_post_def using tinv fr idxv
      by (intro conjI exI [of _ "ys @ [v]"]) (simp_all add: st' stk)
  next
    case True
    have vys: "v \<notin> set ys"
      using dist by auto
    let ?scc = "ys @ [v]"
    let ?onS = "\<lambda>u. if u \<in> set ys \<or> u = v then False else onStack s u"
    from leave True
    have st': "st' = s\<lparr>stack := stack st, onStack := ?onS,
                       sccs := (if length ?scc > 1 then sccs s @ [?scc] else sccs s)\<rparr>"
      by (simp add: leave_vertex_def stk pop_scc_exact [OF vys])
    have idx': "index_of st' = index_of s"
      by (simp add: st' index_of_def fun_eq_iff)
    have dom0: "u \<in> dom (indices st)" if "u \<in> set (stack st)" for u
      using tinv0 that by (auto simp: tarjan_inv_def)
    have low: "lowlink st' w \<le> index_of st' w \<and>
        (\<exists>x \<in> set (stack st'). indices st' x = Some (lowlink st' w) \<and> reaches g w x)"
      if w: "w \<in> set (stack st')" for w
    proof -
      from w have w0: "w \<in> set (stack st)" by (simp add: st')
      with tinv0 obtain x where x: "x \<in> set (stack st)" "indices st x = Some (lowlink st w)"
        "reaches g w x" and le: "lowlink st w \<le> index_of st w"
        by (auto simp: tarjan_inv_def)
      from dom0 [OF w0] obtain i where i: "indices st w = Some i" by auto
      have "lowlink s w = lowlink st w" "index_of s w = index_of st w"
        using fr i frame_index_of [OF fr dom0 [OF w0]] by (auto intro: frame_lowlink_eq)
      moreover have "indices s x = Some (lowlink st w)"
        using fr x(2) by (rule frame_indices)
      ultimately show ?thesis
        using x le by (auto simp: st' index_of_def)
    qed
    have good: "good_scc g ?scc" if "length ?scc > 1"
      unfolding good_scc_def
    proof (intro conjI ballI)
      show "distinct ?scc" using dist by auto
      show "2 \<le> length ?scc" using that by (cases ys) simp_all
    next
      fix u w
      assume "u \<in> set ?scc" "w \<in> set ?scc"
      then have "reaches g u v" "reaches g v w"
        using ys above by (auto simp: reaches_refl)
      then show "reaches g u w" by (rule reaches_trans)
    qed
    have "tarjan_inv g st'"
      unfolding tarjan_inv_def
    proof (intro conjI)
      show "distinct (stack st')"
        using dist by (simp add: st')
      show "\<forall>u. onStack st' u \<longleftrightarrow> u \<in> set (stack st')"
        using tinv dist by (auto simp: st' tarjan_inv_def stk)
      show "set (stack st') \<subseteq> dom (indices st')"
        using tinv by (auto simp: st' tarjan_inv_def stk)
      show "\<forall>u i. indices st' u = Some i \<longrightarrow> i < index st'"
        using tinv by (simp add: st' tarjan_inv_def)
      show "sorted_wrt (\<lambda>a b. index_of st' b < index_of st' a \<and> reaches g b a) (stack st')"
        unfolding idx' using sorted by (simp add: st' sorted_wrt_append)
      show "\<forall>w \<in> set (stack st'). lowlink st' w \<le> index_of st' w \<and>
          (\<exists>x \<in> set (stack st'). indices st' x = Some (lowlink st' w) \<and> reaches g w x)"
        using low by blast
      show "\<forall>scc \<in> set (sccs st'). good_scc g scc"
        using tinv good by (auto simp: st' tarjan_inv_def)
    qed
    moreover have "frame st st'"
      using fr by (simp add: frame_def st')
    moreover have "index st \<le> lowlink st' v"
      using True iv by (simp add: st')
    ultimately show ?thesis
      unfolding call_post_def using idxv
      by (intro conjI exI [of _ "[]"]) (simp_all add: st')
  qed
qed

lemma strongConnect_sound:
  "call_pre g v st \<Longrightarrow> strongConnect g n v st = Some st' \<Longrightarrow> call_post g v st st'"
proof (induction n arbitrary: v st st')
  case 0
  then show ?case by simp
next
  case (Suc n)
  from Suc.prems(2) obtain s where
    loop: "fold (visit_successor (strongConnect g n) v) (edges_at g v)
             (Some (enter_vertex v st)) = Some s"
    and leave: "leave_vertex v s = Some st'"
    by (auto split: option.splits)
  have "loop_inv g v st s"
    using Suc.IH Suc.prems(1) subset_refl enter_vertex_loop_inv [OF Suc.prems(1)] loop
    by (rule successors_loop)
  with Suc.prems(1) show ?case
    using leave by (rule leave_vertex_post)
qed

lemma tarjan_inv_init: "tarjan_inv g tarjan_init"
  by (simp add: tarjan_inv_def tarjan_init_def)

lemma roots_sound:
  "tarjan_inv g st \<Longrightarrow> stack st = [] \<Longrightarrow> fold (visit_root g) roots (Some st) = Some st' \<Longrightarrow>
   tarjan_inv g st' \<and> stack st' = []"
proof (induction roots arbitrary: st)
  case Nil
  then show ?case by simp
next
  case (Cons v roots)
  show ?case
  proof (cases "visit_root g v (Some st)")
    case None
    have "fold (visit_root g) roots None = None"
      by (induction roots) (simp_all add: visit_root_def)
    with None Cons.prems(3) show ?thesis by simp
  next
    case (Some s1)
    have "tarjan_inv g s1 \<and> stack s1 = []"
    proof (cases "indices st v = None")
      case True
      with Some have c: "strongConnect g (length (vertices g)) v st = Some s1"
        by (simp add: visit_root_def)
      have "call_pre g v st"
        using Cons.prems(1,2) True by (simp add: call_pre_def)
      from strongConnect_sound [OF this c] Cons.prems(2) show ?thesis
        by (auto simp: call_post_def)
    next
      case False
      with Some Cons.prems show ?thesis
        by (auto simp: visit_root_def)
    qed
    with Cons.IH [of s1] Cons.prems(3) Some show ?thesis
      by simp
  qed
qed

lemma FindSCCs_sound:
  assumes "FindSCCs ord g = Some comps" and "scc \<in> set comps"
  shows "good_scc g scc"
proof -
  from assms(1) obtain st where
    "fold (visit_root g) (roots_order ord (map fst g)) (Some tarjan_init) = Some st"
    and comps: "comps = sccs st"
    by (auto simp: FindSCCs_def)
  with roots_sound [where st = tarjan_init and st' = st and g = g] have "tarjan_inv g st"
    by (simp add: tarjan_inv_init) (simp add: tarjan_init_def)
  with assms(2) comps show ?thesis
    by (simp add: tarjan_inv_def)
qed

lemma good_scc_not_alone:
  assumes "good_scc g scc" "v \<in> set scc"
  shows "\<not> alone g v"
proof -
  from assms(1) have dist: "distinct scc" and len: "2 \<le> length scc"
    and mutual: "\<And>u w. u \<in> set scc \<Longrightarrow> w \<in> set scc \<Longrightarrow> reaches g u w"
    by (simp_all add: good_scc_def)
  from len obtain a t where t: "scc = a # t"
    by (cases scc) simp_all
  with len obtain b rest where scc: "scc = a # b # rest"
    by (cases t) simp_all
  from dist have ab: "a \<noteq> b"
    by (simp add: scc)
  have a: "a \<in> set scc" and b: "b \<in> set scc"
    by (simp_all add: scc)
  show ?thesis
  proof (cases "v = a")
    case True
    from mutual [OF assms(2) b] mutual [OF b assms(2)] ab True show ?thesis
      unfolding alone_def by blast
  next
    case False
    from mutual [OF assms(2) a] mutual [OF a assms(2)] False show ?thesis
      unfolding alone_def by blast
  qed
qed

lemma alone_not_found:
  assumes "FindSCCs ord g = Some comps" "alone g v"
  shows "v \<notin> \<Union> (set ` set comps)"
proof
  assume "v \<in> \<Union> (set ` set comps)"
  then obtain scc where "scc \<in> set comps" "v \<in> set scc"
    by auto
  with assms(1) have "\<not> alone g v"
    using FindSCCs_sound good_scc_not_alone by blast
  with assms(2) show False by simp
qed

lemma all_alone_none_found:
  assumes "valid_order ord" "\<forall>v. alone g v"
  shows "FindSCCs ord g = Some []"
proof -
  obtain comps where comps: "FindSCCs ord g = Some comps"
    using FindSCCs_total [OF assms(1)] by blast
  have "comps = []"
  proof (cases comps)
    case Nil
    then show ?thesis .
  next
    case (Cons scc rest)
    then have good: "good_scc g scc"
      using FindSCCs_sound [OF comps, of scc] by simp
    then have "scc \<noteq> []"
      by (auto simp: good_scc_def)
    then obtain v where "v \<in> set scc"
      by (cases scc) auto
    with good assms(2) good_scc_not_alone show ?thesis
      by blast
  qed
  with comps show ?thesis by simp
qed

text \<open>Two ways to see that a party is alone in its component.\<close>

lemma self_edges_alone:
  assumes "\<forall>edge \<in> set (edges_at g v). To edge = v"
  shows "alone g v"
proof -
  have "w = v" if "(v, w) \<in> (edge_rel g)\<^sup>*" for w
    using that
  proof (induction rule: rtrancl_induct)
    case base
    then show ?case by simp
  next
    case (step y z)
    with assms show ?case
      by (auto simp: edge_rel_def)
  qed
  then show ?thesis
    by (simp add: alone_def reaches_def)
qed

lemma ranked_alone:
  fixes rank :: "string \<Rightarrow> nat"
  assumes "\<And>u edge. edge \<in> set (edges_at g u) \<Longrightarrow> rank (To edge) < rank u \<or> To edge = u"
  shows "alone g v"
proof -
  have down: "w = u \<or> rank w < rank u" if "(u, w) \<in> (edge_rel g)\<^sup>*" for u w
    using that
  proof (induction rule: rtrancl_induct)
    case base
    then show ?case by simp
  next
    case (step y z)
    from step.hyps(2) obtain edge where "edge \<in> set (edges_at g y)" "To edge = z"
      by (auto simp: edge_rel_def)
    with assms [of edge y] have "rank z < rank y \<or> z = y"
      by auto
    with step.IH show ?case
      by auto
  qed
  show ?thesis
    unfolding alone_def reaches_def
  proof (intro allI impI)
    fix w
    assume "(v, w) \<in> (edge_rel g)\<^sup>*" "(w, v) \<in> (edge_rel g)\<^sup>*"
    with down [of v w] down [of w v] show "w = v"
      by auto
  qed
qed

section \<open>The pipeline\<close>

subsection \<open>Netting keeps the shape of the graph\<close>

lemma same_shape_refl: "same_shape g g"
  by (simp add: same_shape_def)

lemma same_shape_trans: "same_shape a b \<Longrightarrow> same_shape b c \<Longrightarrow> same_shape a c"
  by (simp add: same_shape_def)

lemma same_shape_ApplyNetting: "same_shape g (ApplyNetting g cycle token amount)"
  by (simp add: same_shape_def keys_ApplyNetting edge_keys_ApplyNetting)

lemma same_shape_net_token: "same_shape g (net_token cycle token g)"
  by (simp add: net_token_def Let_def same_shape_ApplyNetting same_shape_refl)

lemma same_shape_fold:
  assumes "\<And>x s. x \<in> set xs \<Longrightarrow> same_shape s (f x s)"
  shows "same_shape g (fold f xs g)"
  by (rule fold_invariant [where I = "same_shape g"])
    (auto intro: same_shape_refl same_shape_trans assms)

lemma same_shape_net_cycle: "same_shape g (net_cycle ord i jc g)"
  unfolding net_cycle_def by (rule same_shape_fold) (rule same_shape_net_token)

lemma same_shape_net_scc: "same_shape g (net_scc ord isc g)"
  unfolding net_scc_def by (rule same_shape_fold) (rule same_shape_net_cycle)

lemma same_shape_inv: "same_shape g g' \<Longrightarrow> one_edge_per_triple g \<Longrightarrow> one_edge_per_triple g'"
  by (simp add: same_shape_def one_edge_per_triple_def)

subsection \<open>Edges from a party to itself\<close>

lemma next_party_distinct:
  assumes "distinct c" "i < length c" "2 \<le> length c"
  shows "next_party c i \<noteq> c ! i"
proof -
  have "(i + 1) mod length c \<noteq> i"
  proof (cases "i + 1 < length c")
    case True
    then show ?thesis by simp
  next
    case False
    with assms have "i + 1 = length c" by simp
    with assms show ?thesis by auto
  qed
  moreover have "(i + 1) mod length c < length c"
    using assms(2) by (intro mod_less_divisor) (cases c, auto)
  ultimately show ?thesis
    using assms by (simp add: next_party_def nth_eq_iff_index_eq)
qed

lemma good_cycle_no_self_pair:
  assumes "good_cycle k S c" "A \<notin> S" "i < length c"
  shows "\<not> (c ! i = A \<and> next_party c i = A)"
proof (cases "2 \<le> length c")
  case True
  with assms next_party_distinct [of c i] show ?thesis
    by (auto simp: good_cycle_def)
next
  case False
  with assms have "length c = 1" "i = 0"
    by (auto simp: good_cycle_def intro: Suc_leI)
  then have "c ! i = hd c"
    by (cases c) auto
  with assms show ?thesis by (auto simp: good_cycle_def)
qed

lemma snd_in_enumerate: "x \<in> set (enumerate n xs) \<Longrightarrow> snd x \<in> set xs"
  by (metis enumerate_eq_zip in_set_zipE prod.collapse)

lemma self_edge_apply_at:
  assumes "\<not> (cycle ! i = A \<and> next_party cycle i = A)"
  shows "find_edge (edges_at (apply_at cycle token amount i g) A) A t = find_edge (edges_at g A) A t"
  using assms by (auto simp: edges_at_apply_at find_edge_sub_other)

lemma self_edge_ApplyNetting:
  assumes "\<forall>i < length cycle. \<not> (cycle ! i = A \<and> next_party cycle i = A)"
  shows "find_edge (edges_at (ApplyNetting g cycle token amount) A) A t =
         find_edge (edges_at g A) A t"
  unfolding ApplyNetting_def
  by (rule fold_invariant
        [where I = "\<lambda>g'. find_edge (edges_at g' A) A t = find_edge (edges_at g A) A t"])
    (use assms in \<open>simp_all add: self_edge_apply_at\<close>)

lemma self_edge_net_cycle:
  assumes "\<forall>i < length (snd jc). \<not> (snd jc ! i = A \<and> next_party (snd jc) i = A)"
  shows "find_edge (edges_at (net_cycle ord i jc g) A) A t = find_edge (edges_at g A) A t"
  unfolding net_cycle_def
  by (rule fold_invariant
        [where I = "\<lambda>g'. find_edge (edges_at g' A) A t = find_edge (edges_at g A) A t"])
    (use assms in \<open>simp_all add: net_token_def Let_def self_edge_ApplyNetting\<close>)

lemma self_edge_net_scc:
  assumes "A \<notin> set (snd isc)"
  shows "find_edge (edges_at (net_scc ord isc g) A) A t = find_edge (edges_at g A) A t"
  unfolding net_scc_def
proof (rule fold_invariant
        [where I = "\<lambda>g'. find_edge (edges_at g' A) A t = find_edge (edges_at g A) A t"])
  fix jc g'
  assume jc: "jc \<in> set (enumerate 0 (FindCycles g (snd isc) 4))"
    and g': "find_edge (edges_at g' A) A t = find_edge (edges_at g A) A t"
  from jc have "snd jc \<in> set (FindCycles g (snd isc) 4)"
    by (rule snd_in_enumerate)
  then have "good_cycle 4 (set (snd isc)) (snd jc)"
    by (rule FindCycles_good)
  then have "\<forall>i < length (snd jc). \<not> (snd jc ! i = A \<and> next_party (snd jc) i = A)"
    using assms good_cycle_no_self_pair by blast
  with g' show "find_edge (edges_at (net_cycle ord (fst isc) jc g') A) A t =
                find_edge (edges_at g A) A t"
    by (simp add: self_edge_net_cycle)
qed simp

lemma self_edge_sccs:
  assumes "A \<notin> \<Union> (set ` set comps)"
  shows "find_edge (edges_at (fold (net_scc ord) (enumerate 0 comps) g) A) A t =
         find_edge (edges_at g A) A t"
proof (rule fold_invariant
        [where I = "\<lambda>g'. find_edge (edges_at g' A) A t = find_edge (edges_at g A) A t"])
  fix isc g'
  assume "isc \<in> set (enumerate 0 comps)"
    and g': "find_edge (edges_at g' A) A t = find_edge (edges_at g A) A t"
  then have "snd isc \<in> set comps"
    by (simp add: snd_in_enumerate)
  with assms have "A \<notin> set (snd isc)" by auto
  with g' show "find_edge (edges_at (net_scc ord isc g') A) A t = find_edge (edges_at g A) A t"
    by (simp add: self_edge_net_scc)
qed simp

lemma same_shape_sccs: "same_shape g (fold (net_scc ord) xs g)"
  by (rule same_shape_fold) (rule same_shape_net_scc)

subsection \<open>The graph that is built\<close>

lemma one_edge_per_triple_build: "one_edge_per_triple (build_graph intents)"
  unfolding build_graph_def
  by (rule fold_invariant [where I = one_edge_per_triple])
    (simp_all add: one_edge_per_triple_NewGraph AddEdge_inv)

lemma find_edge_fold_AddEdge:
  "find_edge (edges_at (fold (\<lambda>intent g. AddEdge g (Sender intent) (Receiver intent)
        (Intent.Token intent) (Intent.Amount intent)) intents g) s) r t =
   (let ms = filter (\<lambda>intent. Sender intent = s \<and> Receiver intent = r \<and>
                               Intent.Token intent = t) intents
    in if ms = [] then find_edge (edges_at g s) r t
       else Some ((case find_edge (edges_at g s) r t of None \<Rightarrow> 0 | Some b \<Rightarrow> b) +
                  sum_list (map Intent.Amount ms)))"
proof (induction intents arbitrary: g)
  case Nil
  then show ?case by simp
next
  case (Cons x xs)
  show ?case
    by (simp add: Cons.IH find_edge_AddEdge Let_def add.assoc split: option.splits)
qed

lemma find_edge_build:
  "find_edge (edges_at (build_graph intents) s) r t = merged_amount intents s r t"
  by (simp add: build_graph_def find_edge_fold_AddEdge merged_amount_def edges_at_NewGraph Let_def)

subsection \<open>Extraction\<close>

lemma set_ToIntents:
  assumes "valid_order ord"
  shows "set (ToIntents ord g) =
    {edge_intent from edge | from edge. edge \<in> set (edges_at g from) \<and> 0 < Amount edge}"
proof -
  have keys: "set (intents_order ord (map fst g)) = fst ` set g"
    using assms by (metis valid_order_def mset_eq_setD set_map)
  have "\<exists>x \<in> set g. fst x = from" if "edge \<in> set (edges_at g from)" for edge "from"
    using that by (cases "map_of g from") (force simp: edges_at_def dest: map_of_SomeD)+
  then show ?thesis
    unfolding ToIntents_def by (fastforce simp: keys)
qed

text \<open>No intent of the output has the amount zero.\<close>

lemma ToIntents_positive:
  "valid_order ord \<Longrightarrow> intent \<in> set (ToIntents ord g) \<Longrightarrow> 0 < Intent.Amount intent"
  by (auto simp: set_ToIntents edge_intent_def)

lemma find_edge_Some:
  "distinct (edge_keys es) \<Longrightarrow>
   find_edge es to token = Some a \<longleftrightarrow>
     (\<exists>edge \<in> set es. To edge = to \<and> Token edge = token \<and> Amount edge = a)"
proof (induction es)
  case Nil
  then show ?case by simp
next
  case (Cons e es)
  then show ?case
    by (auto simp: edge_keys_def rev_image_eqI)
qed

lemma intent_in_ToIntents:
  assumes "valid_order ord" "one_edge_per_triple g"
  shows "mk_intent s r t a \<in> set (ToIntents ord g) \<longleftrightarrow>
         0 < a \<and> find_edge (edges_at g s) r t = Some a"
proof -
  have "distinct (edge_keys (edges_at g s))"
    using assms(2) by (simp add: one_edge_per_triple_def)
  then show ?thesis
    by (auto simp: set_ToIntents [OF assms(1)] find_edge_Some mk_intent_def edge_intent_def)
qed

text \<open>A party that is in none of the returned components has its obligations to itself
  left alone.\<close>

lemma unfound_party_self_edges_kept:
  assumes "valid_order ord"
    and "\<forall>sccs. FindSCCs ord (build_graph intents) = Some sccs \<longrightarrow> A \<notin> \<Union> (set ` set sccs)"
  shows "\<exists>out. ProcessNetting ord intents = Some out \<and>
           (\<forall>t a. mk_intent A A t a \<in> set out \<longleftrightarrow> 0 < a \<and> merged_amount intents A A t = Some a)"
proof -
  let ?g = "build_graph intents"
  obtain comps where comps: "FindSCCs ord ?g = Some comps"
    using FindSCCs_total [OF assms(1)] by blast
  with assms(2) have A: "A \<notin> \<Union> (set ` set comps)" by blast
  let ?g' = "fold (net_scc ord) (enumerate 0 comps) ?g"
  have out: "ProcessNetting ord intents = Some (ToIntents ord ?g')"
    by (simp add: ProcessNetting_def netted_graph_def comps Let_def)
  have inv: "one_edge_per_triple ?g'"
    using same_shape_sccs one_edge_per_triple_build by (rule same_shape_inv)
  have "find_edge (edges_at ?g' A) A t = merged_amount intents A A t" for t
    using self_edge_sccs [OF A] by (simp add: find_edge_build)
  then show ?thesis
    by (simp add: out intent_in_ToIntents [OF assms(1) inv])
qed

text \<open>
  Claim C10, as the code has it. When no other party is on a cycle with \<open>A\<close> (the component
  of \<open>A\<close> is \<open>A\<close> alone, which \<open>FindSCCs\<close> discards), the obligations of \<open>A\<close> to itself are
  never netted: for every token, the output has the intent from \<open>A\<close> to \<open>A\<close> with the merged
  amount of the input, when that amount is positive, and no other intent from \<open>A\<close> to \<open>A\<close>.
\<close>

theorem self_obligation_kept:
  assumes "valid_order ord" and "alone (build_graph intents) A"
  shows "\<exists>out. ProcessNetting ord intents = Some out \<and>
           (\<forall>t a. mk_intent A A t a \<in> set out \<longleftrightarrow> 0 < a \<and> merged_amount intents A A t = Some a)"
  using assms(1)
proof (rule unfound_party_self_edges_kept)
  show "\<forall>sccs. FindSCCs ord (build_graph intents) = Some sccs \<longrightarrow> A \<notin> \<Union> (set ` set sccs)"
    using assms(2) by (auto dest: alone_not_found)
qed

theorem self_obligation_kept_witness:
  "valid_order stored_order \<and>
   alone (build_graph
     [mk_intent ''A'' ''A'' ''T'' 5, mk_intent ''B'' ''C'' ''T'' 3,
      mk_intent ''A'' ''A'' ''T'' 2, mk_intent ''C'' ''B'' ''T'' 1]) ''A'' \<and>
   FindSCCs stored_order (build_graph
     [mk_intent ''A'' ''A'' ''T'' 5, mk_intent ''B'' ''C'' ''T'' 3,
      mk_intent ''A'' ''A'' ''T'' 2, mk_intent ''C'' ''B'' ''T'' 1]) = Some [[''C'', ''B'']] \<and>
   ProcessNetting stored_order
     [mk_intent ''A'' ''A'' ''T'' 5, mk_intent ''B'' ''C'' ''T'' 3,
      mk_intent ''A'' ''A'' ''T'' 2, mk_intent ''C'' ''B'' ''T'' 1] =
     Some [mk_intent ''A'' ''A'' ''T'' 7, mk_intent ''B'' ''C'' ''T'' 2] \<and>
   merged_amount
     [mk_intent ''A'' ''A'' ''T'' 5, mk_intent ''B'' ''C'' ''T'' 3,
      mk_intent ''A'' ''A'' ''T'' 2, mk_intent ''C'' ''B'' ''T'' 1] ''A'' ''A'' ''T'' = Some 7"
proof -
  let ?xs = "[mk_intent ''A'' ''A'' ''T'' 5, mk_intent ''B'' ''C'' ''T'' 3,
              mk_intent ''A'' ''A'' ''T'' 2, mk_intent ''C'' ''B'' ''T'' 1]"
  have g: "build_graph ?xs =
      [(''A'', [mk_edge ''A'' ''T'' 7]), (''B'', [mk_edge ''C'' ''T'' 3]),
       (''C'', [mk_edge ''B'' ''T'' 1])]"
    by code_simp
  have h: "alone (build_graph ?xs) ''A''"
    unfolding g by (rule self_edges_alone) (simp add: edges_at_def mk_edge_def)
  have comps: "FindSCCs stored_order (build_graph ?xs) = Some [[''C'', ''B'']]"
    by code_simp
  have out: "ProcessNetting stored_order ?xs =
               Some [mk_intent ''A'' ''A'' ''T'' 7, mk_intent ''B'' ''C'' ''T'' 2]"
    by code_simp
  have m: "merged_amount ?xs ''A'' ''A'' ''T'' = Some 7"
    by code_simp
  from self_obligation_kept [OF valid_stored_order h] h comps out m show ?thesis
    by (simp add: valid_stored_order)
qed

text \<open>
  A run in which an obligation of a party to itself is netted away: \<open>A\<close> owes itself 5 and
  is on a cycle with \<open>B\<close>, and the output is empty.
\<close>

theorem self_obligation_netted:
  "ProcessNetting stored_order
     [mk_intent ''A'' ''A'' ''T'' 5, mk_intent ''A'' ''B'' ''T'' 1, mk_intent ''B'' ''A'' ''T'' 1] =
   Some []"
  by code_simp

subsection \<open>Inputs without a component\<close>

lemma graph_intents_append_edge:
  "mset (graph_intents (AList.update k (edges_at g k @ [e]) g)) =
     add_mset (edge_intent k e) (mset (graph_intents g))"
proof (induction g)
  case Nil
  then show ?case by (simp add: graph_intents_def edges_at_def)
next
  case (Cons p g)
  obtain k' es' where p: "p = (k', es')" by (cases p)
  show ?case
  proof (cases "k' = k")
    case True
    then show ?thesis by (simp add: p graph_intents_def edges_at_def)
  next
    case False
    then have "edges_at (p # g) k = edges_at g k"
      by (simp add: p edges_at_def)
    with False Cons.IH show ?thesis
      by (simp add: p graph_intents_def)
  qed
qed

lemma distinct_keys_AddEdge:
  "distinct (map fst g) \<Longrightarrow> distinct (map fst (AddEdge g from to token amount))"
  by (simp add: AddEdge_def distinct_update split: option.splits)

lemma distinct_keys_build: "distinct (map fst (build_graph intents))"
  unfolding build_graph_def
  by (rule fold_invariant [where I = "\<lambda>g. distinct (map fst g)"])
    (simp_all add: NewGraph_def distinct_keys_AddEdge)

lemma build_graph_snoc:
  "build_graph (intents @ [x]) =
     AddEdge (build_graph intents) (Sender x) (Receiver x) (Intent.Token x) (Intent.Amount x)"
  by (simp add: build_graph_def)

lemma merged_amount_None:
  "merged_amount intents s r t = None \<longleftrightarrow> (s, r, t) \<notin> intent_triple ` set intents"
  by (auto simp: merged_amount_def Let_def filter_empty_conv intent_triple_def image_iff)

lemma mset_graph_intents_build:
  "distinct (map intent_triple intents) \<Longrightarrow> mset (graph_intents (build_graph intents)) = mset intents"
proof (induction intents rule: rev_induct)
  case Nil
  then show ?case by (simp add: build_graph_def NewGraph_def graph_intents_def)
next
  case (snoc x xs)
  let ?g = "build_graph xs"
  have "intent_triple x \<notin> intent_triple ` set xs"
    using snoc.prems by simp
  then have "find_edge (edges_at ?g (Sender x)) (Receiver x) (Intent.Token x) = None"
    by (simp add: find_edge_build merged_amount_None intent_triple_def)
  then have "add_to_edge (edges_at ?g (Sender x)) (Receiver x) (Intent.Token x) (Intent.Amount x) = None"
    by (simp add: add_to_edge_None)
  then have "build_graph (xs @ [x]) =
      AList.update (Sender x)
        (edges_at ?g (Sender x) @
           [\<lparr>To = Receiver x, Token = Intent.Token x, Amount = Intent.Amount x\<rparr>]) ?g"
    by (simp add: build_graph_snoc AddEdge_def)
  moreover have "edge_intent (Sender x)
      \<lparr>To = Receiver x, Token = Intent.Token x, Amount = Intent.Amount x\<rparr> = x"
    by (simp add: edge_intent_def)
  ultimately show ?case
    using snoc by (simp add: graph_intents_append_edge)
qed

lemma mset_concat_map_perm:
  "mset xs = mset ys \<Longrightarrow> mset (concat (map f xs)) = mset (concat (map f ys))"
proof -
  assume "mset xs = mset ys"
  then have "image_mset (\<lambda>x. mset (f x)) (mset xs) = image_mset (\<lambda>x. mset (f x)) (mset ys)"
    by simp
  then have "sum_mset (image_mset (\<lambda>x. mset (f x)) (mset xs)) =
             sum_mset (image_mset (\<lambda>x. mset (f x)) (mset ys))"
    by simp
  then show ?thesis
    by (simp add: mset_concat sum_mset_sum_list [symmetric] comp_def del: sum_mset_sum_list)
qed

lemma edges_at_key: "distinct (map fst g) \<Longrightarrow> (k, es) \<in> set g \<Longrightarrow> edges_at g k = es"
  by (simp add: edges_at_def)

lemma mset_ToIntents:
  assumes "valid_order ord" "distinct (map fst g)"
  shows "mset (ToIntents ord g) =
         filter_mset (\<lambda>intent. 0 < Intent.Amount intent) (mset (graph_intents g))"
proof -
  let ?F = "\<lambda>from. map (edge_intent from) (filter (\<lambda>edge. Amount edge > 0) (edges_at g from))"
  have "mset (intents_order ord (map fst g)) = mset (map fst g)"
    using assms(1) by (simp add: valid_order_def)
  then have "mset (ToIntents ord g) = mset (concat (map ?F (map fst g)))"
    unfolding ToIntents_def by (rule mset_concat_map_perm)
  also have "map ?F (map fst g) =
      map (\<lambda>(from, es). filter (\<lambda>intent. 0 < Intent.Amount intent) (map (edge_intent from) es)) g"
    using assms(2)
    by (auto simp: edges_at_key filter_map comp_def edge_intent_def)
  also have "concat \<dots> = filter (\<lambda>intent. 0 < Intent.Amount intent) (graph_intents g)"
    by (simp add: graph_intents_def filter_concat comp_def case_prod_unfold)
  finally show ?thesis by simp
qed

text \<open>When \<open>FindSCCs\<close> returns no component, nothing is netted.\<close>

lemma none_found_no_op:
  assumes "valid_order ord" and "FindSCCs ord (build_graph intents) = Some []"
  shows "ProcessNetting ord intents = Some (ToIntents ord (build_graph intents)) \<and>
         (distinct (map intent_triple intents) \<and> (\<forall>intent \<in> set intents. 0 < Intent.Amount intent) \<longrightarrow>
            mset (ToIntents ord (build_graph intents)) = mset intents)"
proof -
  have "ProcessNetting ord intents = Some (ToIntents ord (build_graph intents))"
    using assms(2) by (simp add: ProcessNetting_def netted_graph_def Let_def)
  moreover have "mset (ToIntents ord (build_graph intents)) = mset intents"
    if "distinct (map intent_triple intents)" "\<forall>intent \<in> set intents. 0 < Intent.Amount intent"
  proof -
    have "mset (ToIntents ord (build_graph intents)) =
          filter_mset (\<lambda>intent. 0 < Intent.Amount intent) (mset intents)"
      using that(1) by (simp add: mset_ToIntents [OF assms(1) distinct_keys_build] mset_graph_intents_build)
    also have "\<dots> = mset intents"
      using that(2) by (simp add: filter_mset_eq_conv)
    finally show ?thesis .
  qed
  ultimately show ?thesis by blast
qed

text \<open>
  Claim C6, as the code has it. When no two different parties of the graph reach each other
  (there is no component of two or more parties), nothing is netted and the output is the
  extraction of the graph as built: one intent for each triple, with the merged amount,
  zero amounts left out. When moreover the intents of the input have pairwise different
  triples and positive amounts, the output is the input up to order.
\<close>

theorem acyclic_no_op:
  assumes "valid_order ord" and "\<forall>v. alone (build_graph intents) v"
  shows "ProcessNetting ord intents = Some (ToIntents ord (build_graph intents)) \<and>
         (distinct (map intent_triple intents) \<and> (\<forall>intent \<in> set intents. 0 < Intent.Amount intent) \<longrightarrow>
            mset (ToIntents ord (build_graph intents)) = mset intents)"
  using assms(1) all_alone_none_found [OF assms] by (rule none_found_no_op)

theorem acyclic_no_op_witness:
  "valid_order stored_order \<and>
   (\<forall>v. alone (build_graph [mk_intent ''A'' ''B'' ''T'' 1, mk_intent ''B'' ''C'' ''T'' 2]) v) \<and>
   distinct (map intent_triple [mk_intent ''A'' ''B'' ''T'' 1, mk_intent ''B'' ''C'' ''T'' 2]) \<and>
   0 < Intent.Amount (mk_intent ''A'' ''B'' ''T'' 1) \<and>
   0 < Intent.Amount (mk_intent ''B'' ''C'' ''T'' 2) \<and>
   ProcessNetting stored_order [mk_intent ''A'' ''B'' ''T'' 1, mk_intent ''B'' ''C'' ''T'' 2] =
     Some [mk_intent ''A'' ''B'' ''T'' 1, mk_intent ''B'' ''C'' ''T'' 2]"
proof -
  let ?xs = "[mk_intent ''A'' ''B'' ''T'' 1, mk_intent ''B'' ''C'' ''T'' 2]"
  let ?rank = "\<lambda>v. if v = ''A'' then 2 else if v = ''B'' then 1 else (0::nat)"
  have g: "build_graph ?xs = [(''A'', [mk_edge ''B'' ''T'' 1]), (''B'', [mk_edge ''C'' ''T'' 2])]"
    by code_simp
  have a: "\<forall>v. alone (build_graph ?xs) v"
    unfolding g
  proof
    fix v
    show "alone [(''A'', [mk_edge ''B'' ''T'' 1]), (''B'', [mk_edge ''C'' ''T'' 2])] v"
      by (rule ranked_alone [where rank = ?rank])
        (auto simp: edges_at_def mk_edge_def split: if_splits)
  qed
  have d: "distinct (map intent_triple ?xs)"
    by (simp add: intent_triple_def mk_intent_def)
  have p: "\<forall>intent \<in> set ?xs. 0 < Intent.Amount intent"
    by (simp add: mk_intent_def)
  have out: "ProcessNetting stored_order ?xs = Some ?xs"
    by code_simp
  from acyclic_no_op [OF valid_stored_order a] a d p out show ?thesis
    by (simp add: valid_stored_order)
qed

text \<open>
  Two intents of one triple are merged, so the output of an input without any cycle is not
  the input: it has one intent, of amount 3.
\<close>

theorem acyclic_merges:
  "build_graph [mk_intent ''A'' ''B'' ''T'' 1, mk_intent ''A'' ''B'' ''T'' 2] =
     [(''A'', [mk_edge ''B'' ''T'' 3])] \<and>
   FindSCCs stored_order
     (build_graph [mk_intent ''A'' ''B'' ''T'' 1, mk_intent ''A'' ''B'' ''T'' 2]) = Some [] \<and>
   ProcessNetting stored_order [mk_intent ''A'' ''B'' ''T'' 1, mk_intent ''A'' ''B'' ''T'' 2] =
     Some [mk_intent ''A'' ''B'' ''T'' 3] \<and>
   ProcessNetting stored_order [mk_intent ''A'' ''B'' ''T'' 1, mk_intent ''A'' ''B'' ''T'' 2] \<noteq>
     Some [mk_intent ''A'' ''B'' ''T'' 1, mk_intent ''A'' ''B'' ''T'' 2]"
  by code_simp

section \<open>Runs of the pipeline\<close>

subsection \<open>Graphs of one token\<close>

text \<open>
  When every edge is in one token, \<^verbatim>\<open>tokenMap\<close> has at most one key, and the order of the
  token loop cannot matter.
\<close>

lemma perm_short: "length ks \<le> 1 \<Longrightarrow> mset ks' = mset ks \<Longrightarrow> ks' = ks"
proof (cases ks)
  case Nil
  then show "mset ks' = mset ks \<Longrightarrow> ks' = ks" by simp
next
  case (Cons k rest)
  assume "length ks \<le> 1" "mset ks' = mset ks"
  with Cons have "rest = []" "mset ks' = {#k#}" by auto
  with Cons show "ks' = ks" by (simp add: mset_single_iff_right)
qed

lemma cycle_tokens_single:
  assumes "single_token t g"
  shows "cycle_tokens g c = [] \<or> cycle_tokens g c = [t]"
proof -
  let ?I = "\<lambda>tm. tm = [] \<or> tm = [t]"
  have inner: "?I (fold (\<lambda>edge tokenMap.
                     if To edge = next_party c i then List.insert (Token edge) tokenMap
                     else tokenMap) (edges_at g (c ! i)) tm)" if "?I tm" for i tm
  proof (rule fold_invariant [where I = ?I])
    show "?I tm" by (rule that)
  next
    fix edge tm'
    assume "edge \<in> set (edges_at g (c ! i))" "?I tm'"
    with assms show "?I (if To edge = next_party c i then List.insert (Token edge) tm' else tm')"
      by (auto simp: single_token_def)
  qed
  show ?thesis
    unfolding cycle_tokens_def
    by (rule fold_invariant [where I = ?I]) (simp_all add: inner)
qed

lemma net_cycle_single:
  assumes "valid_order ord" "single_token t g"
  shows "net_cycle ord i jc g = net_cycle stored_order i jc g"
proof -
  have "length (cycle_tokens g (snd jc)) \<le> 1"
    using cycle_tokens_single [OF assms(2), of "snd jc"] by auto
  moreover have "mset (tokens_order ord i (fst jc) (cycle_tokens g (snd jc))) =
                 mset (cycle_tokens g (snd jc))"
    using assms(1) by (simp add: valid_order_def)
  ultimately have "tokens_order ord i (fst jc) (cycle_tokens g (snd jc)) = cycle_tokens g (snd jc)"
    by (rule perm_short)
  then show ?thesis
    by (simp add: net_cycle_def stored_order_def)
qed

lemma single_token_shape:
  assumes "same_shape g g'" "single_token t g"
  shows "single_token t g'"
proof -
  have tokens: "Token ` set (edges_at g' from) = Token ` set (edges_at g from)" for "from"
  proof -
    have "edge_keys (edges_at g' from) = edge_keys (edges_at g from)"
      using assms(1) by (simp add: same_shape_def)
    then have "map snd (edge_keys (edges_at g' from)) = map snd (edge_keys (edges_at g from))"
      by simp
    then have "map Token (edges_at g' from) = map Token (edges_at g from)"
      by (simp add: edge_keys_def comp_def)
    then show ?thesis
      by (metis list.set_map)
  qed
  show ?thesis
    unfolding single_token_def
  proof (intro allI ballI)
    fix "from" edge
    assume "edge \<in> set (edges_at g' from)"
    then have "Token edge \<in> Token ` set (edges_at g from)"
      using tokens by blast
    then obtain e where "e \<in> set (edges_at g from)" "Token edge = Token e"
      by auto
    with assms(2) show "Token edge = t"
      by (simp add: single_token_def)
  qed
qed

lemma fold_net_cycle_single:
  assumes "valid_order ord"
  shows "single_token t g \<Longrightarrow>
         fold (net_cycle ord i) xs g = fold (net_cycle stored_order i) xs g"
proof (induction xs arbitrary: g)
  case Nil
  then show ?case by simp
next
  case (Cons jc xs)
  have "single_token t (net_cycle stored_order i jc g)"
    using same_shape_net_cycle Cons.prems by (rule single_token_shape)
  with Cons show ?case
    by (simp add: net_cycle_single [OF assms Cons.prems])
qed

lemma net_scc_single:
  "valid_order ord \<Longrightarrow> single_token t g \<Longrightarrow> net_scc ord isc g = net_scc stored_order isc g"
  by (simp add: net_scc_def fold_net_cycle_single)

lemma fold_net_scc_single:
  assumes "valid_order ord"
  shows "single_token t g \<Longrightarrow>
         fold (net_scc ord) xs g = fold (net_scc stored_order) xs g"
proof (induction xs arbitrary: g)
  case Nil
  then show ?case by simp
next
  case (Cons isc xs)
  have "single_token t (net_scc stored_order isc g)"
    using same_shape_net_scc Cons.prems by (rule single_token_shape)
  with Cons show ?case
    by (simp add: net_scc_single [OF assms Cons.prems])
qed

lemma perm3:
  assumes "mset ks = mset [a, b, c]"
  shows "ks \<in> set [[a, b, c], [a, c, b], [b, a, c], [b, c, a], [c, a, b], [c, b, a]]"
proof -
  from assms have "length ks = 3"
    by (metis length_Cons list.size(3) numeral_3_eq_3 size_mset)
  then obtain x y z where ks: "ks = [x, y, z]"
    by (auto simp: numeral_3_eq_3 length_Suc_conv)
  from assms show ?thesis
    unfolding ks by (auto simp: add_eq_conv_ex)
qed

lemma example_graph:
  "build_graph [mk_intent ''A'' ''B'' ''ETH'' 100, mk_intent ''B'' ''C'' ''ETH'' 50,
                mk_intent ''C'' ''A'' ''ETH'' 30] =
   [(''A'', [mk_edge ''B'' ''ETH'' 100]), (''B'', [mk_edge ''C'' ''ETH'' 50]),
    (''C'', [mk_edge ''A'' ''ETH'' 30])]"
  by code_simp

lemma example_netted:
  "\<forall>roots \<in> set [[''A'', ''B'', ''C''], [''A'', ''C'', ''B''], [''B'', ''A'', ''C''],
                  [''B'', ''C'', ''A''], [''C'', ''A'', ''B''], [''C'', ''B'', ''A'']].
     map_option
       (\<lambda>comps. fold (net_scc stored_order) (enumerate 0 comps)
          [(''A'', [mk_edge ''B'' ''ETH'' 100]), (''B'', [mk_edge ''C'' ''ETH'' 50]),
           (''C'', [mk_edge ''A'' ''ETH'' 30])])
       (map_option sccs
          (fold (visit_root [(''A'', [mk_edge ''B'' ''ETH'' 100]), (''B'', [mk_edge ''C'' ''ETH'' 50]),
                             (''C'', [mk_edge ''A'' ''ETH'' 30])]) roots (Some tarjan_init))) =
     Some [(''A'', [mk_edge ''B'' ''ETH'' 70]), (''B'', [mk_edge ''C'' ''ETH'' 20]),
           (''C'', [mk_edge ''A'' ''ETH'' 0])]"
  by code_simp

text \<open>
  Claim C7. For the input \<open>A\<close> to \<open>B\<close> 100, \<open>B\<close> to \<open>C\<close> 50, \<open>C\<close> to \<open>A\<close> 30, all in ETH,
  and for every iteration order of the maps: the netting amount of the cycle is 30, the netted
  graph has the amounts 70, 20 and 0, and the output is the two intents \<open>A\<close> to \<open>B\<close> 70 and
  \<open>B\<close> to \<open>C\<close> 20 (in the order of the extraction loop), without the edge from \<open>C\<close> to \<open>A\<close>.
\<close>

theorem partial_cancellation:
  assumes "valid_order ord"
  shows "CalculateNetting
           (build_graph [mk_intent ''A'' ''B'' ''ETH'' 100, mk_intent ''B'' ''C'' ''ETH'' 50,
                         mk_intent ''C'' ''A'' ''ETH'' 30]) [''A'', ''B'', ''C''] ''ETH'' = 30 \<and>
         netted_graph ord [mk_intent ''A'' ''B'' ''ETH'' 100, mk_intent ''B'' ''C'' ''ETH'' 50,
                           mk_intent ''C'' ''A'' ''ETH'' 30] =
           Some [(''A'', [mk_edge ''B'' ''ETH'' 70]), (''B'', [mk_edge ''C'' ''ETH'' 20]),
                 (''C'', [mk_edge ''A'' ''ETH'' 0])] \<and>
         (\<exists>out. ProcessNetting ord [mk_intent ''A'' ''B'' ''ETH'' 100, mk_intent ''B'' ''C'' ''ETH'' 50,
                                      mk_intent ''C'' ''A'' ''ETH'' 30] = Some out \<and>
                mset out = {#mk_intent ''A'' ''B'' ''ETH'' 70, mk_intent ''B'' ''C'' ''ETH'' 20#})"
proof -
  let ?xs = "[mk_intent ''A'' ''B'' ''ETH'' 100, mk_intent ''B'' ''C'' ''ETH'' 50,
              mk_intent ''C'' ''A'' ''ETH'' 30]"
  let ?g0 = "[(''A'', [mk_edge ''B'' ''ETH'' 100]), (''B'', [mk_edge ''C'' ''ETH'' 50]),
              (''C'', [mk_edge ''A'' ''ETH'' 30])]"
  let ?g1 = "[(''A'', [mk_edge ''B'' ''ETH'' 70]), (''B'', [mk_edge ''C'' ''ETH'' 20]),
              (''C'', [mk_edge ''A'' ''ETH'' 0])]"
  let ?roots = "roots_order ord [''A'', ''B'', ''C'']"
  have amount: "CalculateNetting (build_graph ?xs) [''A'', ''B'', ''C''] ''ETH'' = 30"
    by code_simp
  have one: "single_token ''ETH'' ?g0"
    by (auto simp: single_token_def edges_at_def mk_edge_def split: if_splits)
  have "mset ?roots = mset [''A'', ''B'', ''C'']"
    using assms by (simp add: valid_order_def)
  then have roots: "?roots \<in> set [[''A'', ''B'', ''C''], [''A'', ''C'', ''B''],
      [''B'', ''A'', ''C''], [''B'', ''C'', ''A''], [''C'', ''A'', ''B''], [''C'', ''B'', ''A'']]"
    by (rule perm3)
  have "netted_graph ord ?xs =
        map_option (\<lambda>comps. fold (net_scc stored_order) (enumerate 0 comps) ?g0)
          (map_option sccs (fold (visit_root ?g0) ?roots (Some tarjan_init)))"
    by (simp add: netted_graph_def example_graph FindSCCs_def Let_def
        fold_net_scc_single [OF assms one])
  also have "\<dots> = Some ?g1"
    using example_netted roots by blast
  finally have netted: "netted_graph ord ?xs = Some ?g1" .
  have "mset (ToIntents ord ?g1) =
        {#mk_intent ''A'' ''B'' ''ETH'' 70, mk_intent ''B'' ''C'' ''ETH'' 20#}"
    using assms
    by (subst mset_ToIntents)
      (simp_all add: graph_intents_def mk_edge_def edge_intent_def mk_intent_def)
  with amount netted show ?thesis
    by (simp add: ProcessNetting_def)
qed

theorem partial_cancellation_witness:
  "valid_order stored_order \<and>
   ProcessNetting stored_order [mk_intent ''A'' ''B'' ''ETH'' 100, mk_intent ''B'' ''C'' ''ETH'' 50,
                                mk_intent ''C'' ''A'' ''ETH'' 30] =
     Some [mk_intent ''A'' ''B'' ''ETH'' 70, mk_intent ''B'' ''C'' ''ETH'' 20]"
proof -
  have "ProcessNetting stored_order [mk_intent ''A'' ''B'' ''ETH'' 100,
          mk_intent ''B'' ''C'' ''ETH'' 50, mk_intent ''C'' ''A'' ''ETH'' 30] =
        Some [mk_intent ''A'' ''B'' ''ETH'' 70, mk_intent ''B'' ''C'' ''ETH'' 20]"
    by code_simp
  with partial_cancellation [OF valid_stored_order] show ?thesis
    by (simp add: valid_stored_order)
qed

subsection \<open>Cycles whose edges are in different tokens\<close>

text \<open>
  Claim C1, on the code. \<open>A\<close> owes \<open>B\<close> 100 ETH and \<open>B\<close> owes \<open>A\<close> 50 USDC. The two parties
  are a component, the cycle \<open>A B\<close> has both tokens on its edges, and for each token the
  netting amount is the amount of the only edge in it; both edges are netted to zero and
  the output is empty. The net position of \<open>A\<close> in ETH is 100 in the input and 0 in the
  output.
\<close>

theorem mixed_tokens_vanish:
  "ProcessNetting stored_order
     [mk_intent ''A'' ''B'' ''ETH'' 100, mk_intent ''B'' ''A'' ''USDC'' 50] = Some [] \<and>
   net_position [mk_intent ''A'' ''B'' ''ETH'' 100, mk_intent ''B'' ''A'' ''USDC'' 50]
     ''A'' ''ETH'' = 100 \<and>
   net_position [] ''A'' ''ETH'' = 0"
  by code_simp

text \<open>
  Claim C9, on the code. A first run nets the two cycles of the input, each in its token,
  and leaves \<open>A\<close> to \<open>B\<close> 2 in T1 and \<open>B\<close> to \<open>A\<close> 2 in T2. A second run on this output
  finds the cycle \<open>A B\<close> with one edge in each token, and nets both edges to zero: its output
  is empty.
\<close>

theorem second_run_differs:
  "ProcessNetting stored_order
     [mk_intent ''A'' ''B'' ''T1'' 5, mk_intent ''B'' ''A'' ''T1'' 3,
      mk_intent ''A'' ''B'' ''T2'' 3, mk_intent ''B'' ''A'' ''T2'' 5] =
     Some [mk_intent ''A'' ''B'' ''T1'' 2, mk_intent ''B'' ''A'' ''T2'' 2] \<and>
   ProcessNetting stored_order
     [mk_intent ''A'' ''B'' ''T1'' 2, mk_intent ''B'' ''A'' ''T2'' 2] = Some []"
  by code_simp

end
